theory Spec2Isabelle
  imports Main "HOL-Library.Multiset"
begin

section \<open>Values, cache settings and machines\<close>

text \<open>
  The store behind a cache model is identified by a number. A \<open>model\<close> property is either
  not an object at all, or an object of which we record the store it talks to and whether
  its \<open>find\<close> and \<open>create\<close> properties are functions (the two facts lines 53-59 of
  \<open>Machine.prototype.exec.js\<close> test).
\<close>

datatype model_val = ModelNotObject | ModelObject nat bool bool

text \<open>
  The source calls two further operations of the model object, \<open>count\<close> (line 177) and
  \<open>destroy\<close> (line 194), which the test of lines 53-59 does not look at. Whether they
  are functions is given to a run as \<open>model_extras\<close>; \<open>full_model\<close> is a model
  object that has both, as the store contract describes it.
\<close>

record model_extras =
  has_count :: bool
  has_destroy :: bool

definition full_model :: model_extras where
  "full_model = \<lparr> has_count = True, has_destroy = True \<rparr>"

text \<open>
  A cache settings object as the caller writes it: every property may be absent.
  Times are milliseconds, as JavaScript dates are.
\<close>

record cache_obj =
  model :: "model_val option"
  ttl :: "int option"
  maxOldEntriesBuffer :: "nat option"
  exit :: "string option"
  expirationDate :: "int option"

text \<open>
  JavaScript values as far as the code looks at them. \<open>JObj r\<close> is a reference to an
  object on the caller's heap, opaque to the code and compared by its address;
  \<open>JSettings\<close> is an object carrying cache settings.
\<close>

datatype jsval =
    JUndefined
  | JNull
  | JBool bool
  | JNum int
  | JStr string
  | JObj nat
  | JSettings cache_obj

fun truthy :: "jsval \<Rightarrow> bool" where
  "truthy JUndefined = False"
| "truthy JNull = False"
| "truthy (JBool b) = b"
| "truthy (JNum n) = (n \<noteq> 0)"
| "truthy (JStr s) = (s \<noteq> [])"
| "truthy (JObj r) = True"
| "truthy (JSettings s) = True"

text \<open>An exit continuation of the caller, opaque and known by its identity.\<close>

datatype handler = Handler nat

text \<open>
  The private state of a machine instance that \<open>exec\<close> reads: \<open>fn\<close> is the identity of the
  unit's function, \<open>dependencies\<close> is \<open>_dependencies\<close>, \<open>configuredContexts\<close> is
  \<open>_configuredContexts\<close>, and \<open>cacheSettings\<close> is \<open>None\<close> when \<open>_cacheSettings\<close> is not
  an object.
\<close>

record machine =
  fn :: nat
  configuredInputs :: "string \<rightharpoonup> jsval"
  configuredExits :: "string \<rightharpoonup> handler"
  dependencies :: jsval
  configuredContexts :: jsval
  cacheSettings :: "cache_obj option"

text \<open>The normalised \<open>_cache\<close> of a run, once validation has passed and defaults are applied.\<close>

record cache_cfg =
  c_model :: nat
  c_ttl :: int
  c_maxOldEntriesBuffer :: nat
  c_exit :: string
  c_expirationDate :: int

section \<open>Store queries\<close>

datatype comparator = GreaterThan | LessOrEqual

datatype sort_order = CreatedAtDesc

text \<open>
  The criteria objects the code builds for \<open>find\<close>, \<open>count\<close> and \<open>destroy\<close>. The hash is
  \<open>None\<close> where the source passes the still undefined variable \<open>hash\<close>.
\<close>

record criteria =
  where_createdAt :: "comparator \<times> int"
  where_hash :: "string option"
  sort_by :: "sort_order option"
  limit :: "nat option"
  skip :: "nat option"

record find_options =
  opt_hash :: "string option"
  opt_expirationDate :: int

definition buildFindCriteria :: "find_options \<Rightarrow> criteria" where
  "buildFindCriteria options =
     \<lparr> where_createdAt = (GreaterThan, opt_expirationDate options),
       where_hash = opt_hash options,
       sort_by = Some CreatedAtDesc,
       limit = Some 1,
       skip = None \<rparr>"

record entry =
  hash :: string
  data :: jsval
  createdAt :: int

datatype request =
    Find criteria
  | Count criteria
  | Destroy criteria
  | Create string jsval

section \<open>Exits and the switchback\<close>

text \<open>
  An exit function handed to the unit's function: either the caller's continuation
  itself, or the wrapper of lines 235-249, which closes over the store, the hash and the
  original continuation.
\<close>

datatype exit_fn = Original handler | Intercepted nat string handler

datatype this_val = ThisMachine | ThisVal jsval

datatype event =
    Warn jsval
  | CalculateHash
  | Issue nat request
  | RunFn nat this_val "string \<rightharpoonup> jsval" "string \<rightharpoonup> exit_fn" jsval
  | CallExit handler "jsval list"
  | Unhandled string "jsval list"
  | TypeError string

text \<open>
  \<open>node-switchback\<close> is a library outside this repository. A switchback over a handler
  set, called as a node callback, goes to \<open>error\<close> with all arguments when the first one
  is truthy and to \<open>success\<close> with the remaining ones otherwise. What the library does for
  a handler that is not there is left open as the event \<open>Unhandled\<close>. \<open>TypeError p\<close> is
  the exception of calling the property \<open>p\<close> of the model object when it is not a
  function; it ends the synchronous stretch that raised it.
\<close>

definition invoke :: "(string \<rightharpoonup> handler) \<Rightarrow> string \<Rightarrow> jsval list \<Rightarrow> event" where
  "invoke hs name args =
     (case hs name of Some k \<Rightarrow> CallExit k args | None \<Rightarrow> Unhandled name args)"

definition switchback_call :: "(string \<rightharpoonup> handler) \<Rightarrow> jsval \<Rightarrow> jsval \<Rightarrow> event" where
  "switchback_call hs err d =
     (if truthy err then invoke hs ''error'' [err, d] else invoke hs ''success'' [d])"

section \<open>The state of a run\<close>

text \<open>
  A callback registered and not yet called: of \<open>calculateHash\<close>, of the \<open>exec\<close> of a
  \<open>find\<close>, \<open>count\<close>, \<open>destroy\<close>, or of the \<open>create\<close> issued by an intercepted exit (which
  closes over the original continuation and the data).
\<close>

datatype pending = PHash | PFind | PCount | PDestroy | PCreate handler jsval

text \<open>
  The closure variables of one call of \<open>exec\<close> (\<open>self\<close>, \<open>_cache\<close>, \<open>hash\<close>), what the run
  has done so far, the callbacks it waits for, the exit set it gave to the unit's
  function once that has been started, and which further operations \<open>_cache.model\<close> has.
\<close>

record config =
  self :: machine
  cache :: "cache_cfg option"
  run_hash :: "string option"
  events :: "event list"
  pending :: "pending list"
  given_exits :: "(string \<rightharpoonup> exit_fn) option"
  extras :: model_extras

section \<open>Machine.js\<close>

text \<open>
  \<open>setExits\<close> extends \<open>_configuredExits\<close> with the properties of the switchback that
  \<open>node-switchback\<close> builds from its argument. That library is not part of the sources, so
  the argument \<open>xs\<close> stands for the handler set of that switchback, whatever handlers the
  library adds of its own included; they override those already configured.
\<close>

definition setExits :: "(string \<rightharpoonup> handler) \<Rightarrow> machine \<Rightarrow> machine" where
  "setExits xs m = m\<lparr>configuredExits := configuredExits m ++ xs\<rparr>"

definition setInputs :: "(string \<rightharpoonup> jsval) \<Rightarrow> machine \<Rightarrow> machine" where
  "setInputs ins m = m\<lparr>configuredInputs := configuredInputs m ++ ins\<rparr>"

definition configure ::
  "(string \<rightharpoonup> jsval) option \<Rightarrow> (string \<rightharpoonup> handler) option \<Rightarrow> machine \<Rightarrow> machine" where
  "configure ins xs m =
     (let m1 = (case xs of Some x \<Rightarrow> setExits x m | None \<Rightarrow> m)
      in (case ins of Some i \<Rightarrow> setInputs i m1 | None \<Rightarrow> m1))"

text \<open>
  The \<open>exec\<close> of \<open>Machine.js\<close> (lines 192-205): no cache, the function is called as a
  method of the machine with the configured exits and \<open>_dependencies\<close>.
\<close>

definition plain_exec :: "(string \<rightharpoonup> handler) option \<Rightarrow> machine \<Rightarrow> config" where
  "plain_exec xs m =
     (let m1 = (case xs of Some x \<Rightarrow> setExits x m | None \<Rightarrow> m);
          given = (\<lambda>name. map_option Original (configuredExits m1 name))
      in \<lparr> self = m1, cache = None, run_hash = None,
           events = [RunFn (fn m1) ThisMachine (configuredInputs m1) given (dependencies m1)],
           pending = [], given_exits = Some given, extras = full_model \<rparr>)"

section \<open>Machine.prototype.exec.js\<close>

subsection \<open>Cache settings: override, validation, defaults\<close>

definition override :: "'a option \<Rightarrow> 'a option \<Rightarrow> 'a option" where
  "override old new = (case new of None \<Rightarrow> old | Some v \<Rightarrow> Some v)"

text \<open>
  \<open>_.extend(this._cacheSettings, this._configuredInputs._cache)\<close>: the properties of the
  source replace those of the destination. A source that is not a settings object has none
  of the five properties. For a destination that is not an object, lodash (of the 2.x
  line, contemporary with this code) returns the destination as it is.
\<close>

definition extend :: "cache_obj option \<Rightarrow> jsval \<Rightarrow> cache_obj option" where
  "extend dst src =
     (case dst of
        None \<Rightarrow> None
      | Some d \<Rightarrow>
          (case src of
             JSettings s \<Rightarrow>
               Some \<lparr> model = override (model d) (model s),
                      ttl = override (ttl d) (ttl s),
                      maxOldEntriesBuffer = override (maxOldEntriesBuffer d) (maxOldEntriesBuffer s),
                      exit = override (exit d) (exit s),
                      expirationDate = override (expirationDate d) (expirationDate s) \<rparr>
           | _ \<Rightarrow> Some d))"

text \<open>Lines 53-59: the test that decides whether \<open>_cache\<close> is nulled out.\<close>

definition valid_cache :: "cache_obj option \<Rightarrow> bool" where
  "valid_cache c =
     (case c of
        None \<Rightarrow> False
      | Some s \<Rightarrow>
          (case model s of
             Some (ModelObject st has_find has_create) \<Rightarrow> has_find \<and> has_create
           | _ \<Rightarrow> False))"

definition model_store :: "cache_obj \<Rightarrow> nat" where
  "model_store s = (case model s of Some (ModelObject st f c) \<Rightarrow> st | _ \<Rightarrow> 0)"

text \<open>Lines 65-92: \<open>_.defaults\<close> fills the absent properties, then the cutoff is set.\<close>

definition apply_defaults :: "int \<Rightarrow> cache_obj \<Rightarrow> cache_cfg" where
  "apply_defaults now s =
     (let t = (case ttl s of Some v \<Rightarrow> v | None \<Rightarrow> 3 * 60 * 60 * 1000)
      in \<lparr> c_model = model_store s,
           c_ttl = t,
           c_maxOldEntriesBuffer = (case maxOldEntriesBuffer s of Some v \<Rightarrow> v | None \<Rightarrow> 0),
           c_exit = (case exit s of Some v \<Rightarrow> v | None \<Rightarrow> ''success''),
           c_expirationDate = now - t \<rparr>)"

text \<open>What the normalisation leaves in the settings object, which it mutates in place.\<close>

definition normalized_obj :: "cache_obj \<Rightarrow> cache_cfg \<Rightarrow> cache_obj" where
  "normalized_obj s cfg =
     s\<lparr> ttl := Some (c_ttl cfg),
        maxOldEntriesBuffer := Some (c_maxOldEntriesBuffer cfg),
        exit := Some (c_exit cfg),
        expirationDate := Some (c_expirationDate cfg) \<rparr>"

text \<open>Lines 45-48: the reserved input is consumed only when its value is truthy.\<close>

definition consume_cache_input :: "machine \<Rightarrow> machine" where
  "consume_cache_input m =
     (case configuredInputs m ''_cache'' of
        None \<Rightarrow> m
      | Some v \<Rightarrow>
          if truthy v
          then m\<lparr> cacheSettings := extend (cacheSettings m) v,
                  configuredInputs := (configuredInputs m)(''_cache'' := None) \<rparr>
          else m)"

subsection \<open>Running the machine\<close>

text \<open>Lines 221-252: the exit set given to the function.\<close>

definition interceptedExits ::
  "cache_cfg option \<Rightarrow> string option \<Rightarrow> (string \<rightharpoonup> handler) \<Rightarrow> (string \<rightharpoonup> exit_fn)" where
  "interceptedExits c h xs =
     (\<lambda>exitName.
        case xs exitName of
          None \<Rightarrow> None
        | Some k \<Rightarrow>
            (case c of
               None \<Rightarrow> Some (Original k)
             | Some cfg \<Rightarrow>
                 (case h of
                    None \<Rightarrow> Some (Original k)
                  | Some hv \<Rightarrow>
                      if hv = [] \<or> exitName \<noteq> c_exit cfg then Some (Original k)
                      else Some (Intercepted (c_model cfg) hv k))))"

definition gc_criteria :: "cache_cfg \<Rightarrow> string option \<Rightarrow> criteria" where
  "gc_criteria cfg h =
     \<lparr> where_createdAt = (LessOrEqual, c_expirationDate cfg),
       where_hash = h,
       sort_by = None,
       limit = None,
       skip = None \<rparr>"

definition destroy_criteria :: "cache_cfg \<Rightarrow> string option \<Rightarrow> criteria" where
  "destroy_criteria cfg h =
     \<lparr> where_createdAt = (LessOrEqual, c_expirationDate cfg),
       where_hash = h,
       sort_by = Some CreatedAtDesc,
       limit = None,
       skip = Some (c_maxOldEntriesBuffer cfg) \<rparr>"

text \<open>
  Lines 156-256, \<open>_cacheNotAnOption_justRunMachine\<close>: one synchronous stretch that warns,
  issues the \<open>count\<close> of the garbage collector, builds the exit set and calls the function.
  With a cache whose model has no \<open>count\<close> function, the call of line 177 throws after the
  warning, and the rest of the stretch, the call of the function included, is not reached.
\<close>

definition justRunMachine :: "jsval \<Rightarrow> config \<Rightarrow> config" where
  "justRunMachine err c =
     (let warned = (if truthy err then [Warn err] else [])
      in if cache c \<noteq> None \<and> \<not> has_count (extras c)
         then c\<lparr> events := events c @ warned @ [TypeError ''count''] \<rparr>
         else
           (let gc = (case cache c of
                        None \<Rightarrow> []
                      | Some cfg \<Rightarrow> [Issue (c_model cfg) (Count (gc_criteria cfg (run_hash c)))]);
                waits = (case cache c of None \<Rightarrow> [] | Some cfg \<Rightarrow> [PCount]);
                given = interceptedExits (cache c) (run_hash c) (configuredExits (self c))
            in c\<lparr> events := events c @ warned @ gc @
                      [RunFn (fn (self c)) (ThisVal (configuredContexts (self c)))
                         (configuredInputs (self c)) given (configuredContexts (self c))],
                  pending := pending c @ waits,
                  given_exits := Some given \<rparr>))"

text \<open>
  Lines 121-136: the callback of \<open>calculateHash\<close>. It is registered only when \<open>_cache\<close> is
  set, so the branch for an absent \<open>_cache\<close> is never taken in a run.
\<close>

definition hash_cb :: "jsval \<Rightarrow> string option \<Rightarrow> config \<Rightarrow> config" where
  "hash_cb err calculated c =
     (if truthy err then justRunMachine err c
      else
        (case cache c of
           None \<Rightarrow> c
         | Some cfg \<Rightarrow>
             c\<lparr> run_hash := calculated,
                events := events c @
                  [Issue (c_model cfg)
                     (Find (buildFindCriteria
                        \<lparr> opt_hash = calculated,
                          opt_expirationDate = c_expirationDate cfg \<rparr>))],
                pending := pending c @ [PFind] \<rparr>))"

text \<open>Lines 137-152: the callback of the lookup.\<close>

definition find_cb :: "jsval \<Rightarrow> entry list \<Rightarrow> config \<Rightarrow> config" where
  "find_cb err cached c =
     (if truthy err then justRunMachine err c
      else
        (case cached of
           [] \<Rightarrow> justRunMachine JUndefined c
         | newestCacheEntry # rest \<Rightarrow>
             if data newestCacheEntry \<noteq> JUndefined
             then c\<lparr> events := events c @
                       [switchback_call (configuredExits (self c)) JNull (data newestCacheEntry)] \<rparr>
             else justRunMachine JUndefined c))"

text \<open>
  Lines 184-215: the callback of \<open>count\<close>. After an error the count is usually undefined,
  and \<open>undefined > n\<close> is false. Where the model has no \<open>destroy\<close> function the call of
  line 194 throws.
\<close>

definition count_cb :: "jsval \<Rightarrow> nat option \<Rightarrow> config \<Rightarrow> config" where
  "count_cb err numOldCacheEntries c =
     (let c1 = (if truthy err then c\<lparr>events := events c @ [Warn err]\<rparr> else c)
      in (case cache c1 of
            None \<Rightarrow> c1
          | Some cfg \<Rightarrow>
              (case numOldCacheEntries of
                 None \<Rightarrow> c1
               | Some n \<Rightarrow>
                   if n > c_maxOldEntriesBuffer cfg
                   then
                     if has_destroy (extras c1)
                     then c1\<lparr> events := events c1 @
                                [Issue (c_model cfg) (Destroy (destroy_criteria cfg (run_hash c1)))],
                              pending := pending c1 @ [PDestroy] \<rparr>
                     else c1\<lparr> events := events c1 @ [TypeError ''destroy''] \<rparr>
                   else c1)))"

definition destroy_cb :: "jsval \<Rightarrow> config \<Rightarrow> config" where
  "destroy_cb err c = (if truthy err then c\<lparr>events := events c @ [Warn err]\<rparr> else c)"

text \<open>Lines 240-248: the callback of the cache write of an intercepted exit.\<close>

definition create_cb :: "handler \<Rightarrow> jsval \<Rightarrow> jsval \<Rightarrow> config \<Rightarrow> config" where
  "create_cb k d err c =
     (let c1 = (if truthy err then c\<lparr>events := events c @ [Warn err]\<rparr> else c)
      in c1\<lparr>events := events c1 @ [CallExit k [d]]\<rparr>)"

text \<open>
  Calling an exit function of the given exit set. The wrapper takes its first argument as
  \<open>data\<close> (undefined when there is none) and issues the cache write.
\<close>

definition call_exit :: "exit_fn \<Rightarrow> jsval list \<Rightarrow> config \<Rightarrow> config" where
  "call_exit f args c =
     (case f of
        Original k \<Rightarrow> c\<lparr>events := events c @ [CallExit k args]\<rparr>
      | Intercepted st h k \<Rightarrow>
          (let d = (case args of [] \<Rightarrow> JUndefined | a # rest \<Rightarrow> a)
           in c\<lparr> events := events c @ [Issue st (Create h d)],
                 pending := pending c @ [PCreate k d] \<rparr>))"

subsection \<open>exec\<close>

text \<open>
  Lines 16-118: the synchronous part of \<open>exec\<close>, which takes the clock reading \<open>now\<close> and
  what the model object has beyond \<open>find\<close> and \<open>create\<close>. The machine in the resulting
  state is the mutated \<open>this\<close>.
\<close>

definition prepare :: "(string \<rightharpoonup> handler) option \<Rightarrow> machine \<Rightarrow> machine" where
  "prepare xs m = consume_cache_input (case xs of Some x \<Rightarrow> setExits x m | None \<Rightarrow> m)"

definition fresh_run :: "model_extras \<Rightarrow> machine \<Rightarrow> cache_cfg option \<Rightarrow> config" where
  "fresh_run ex m c =
     \<lparr> self = m, cache = c, run_hash = None, events = [], pending = [], given_exits = None,
       extras = ex \<rparr>"

text \<open>
  Lines 117-125, \<open>_tryCacheLookup\<close>: without a cache the machine is run at once; otherwise
  the hash of the configured inputs is asked for (\<open>hash-machine\<close> is not part of the sources
  at hand; its answer, an error or a hash, reaches the run as the callback's arguments).
\<close>

definition tryCacheLookup :: "config \<Rightarrow> config" where
  "tryCacheLookup c =
     (case cache c of
        None \<Rightarrow> justRunMachine JUndefined c
      | Some cfg \<Rightarrow> c\<lparr>events := events c @ [CalculateHash], pending := pending c @ [PHash]\<rparr>)"

definition exec_on ::
  "model_extras \<Rightarrow> (string \<rightharpoonup> handler) option \<Rightarrow> int \<Rightarrow> machine \<Rightarrow> config" where
  "exec_on ex xs now m =
     (let m2 = prepare xs m
      in if \<not> valid_cache (cacheSettings m2)
         then tryCacheLookup (fresh_run ex m2 None)
         else
           (case cacheSettings m2 of
              None \<Rightarrow> tryCacheLookup (fresh_run ex m2 None)
            | Some s \<Rightarrow>
                (let cfg = apply_defaults now s
                 in tryCacheLookup
                      (fresh_run ex (m2\<lparr>cacheSettings := Some (normalized_obj s cfg)\<rparr>) (Some cfg)))))"

text \<open>\<open>exec\<close> on a machine whose cache model, if it has one, is a full model object.\<close>

definition exec :: "(string \<rightharpoonup> handler) option \<Rightarrow> int \<Rightarrow> machine \<Rightarrow> config" where
  "exec xs now m = exec_on full_model xs now m"

subsection \<open>Schedules\<close>

text \<open>
  What the world around a run does to it: a registered callback is called with its
  arguments (an error value and a result), or the unit's function, once started, calls an
  exit of the exit set it was given.
\<close>

datatype response =
    RHash jsval "string option"
  | RFind jsval "entry list"
  | RCount jsval "nat option"
  | RDestroy jsval
  | RCreate jsval

datatype action = Respond nat response | Traverse string "jsval list"

fun resume :: "pending \<Rightarrow> response \<Rightarrow> config \<Rightarrow> config option" where
  "resume PHash (RHash err h) c = Some (hash_cb err h c)"
| "resume PFind (RFind err cached) c = Some (find_cb err cached c)"
| "resume PCount (RCount err n) c = Some (count_cb err n c)"
| "resume PDestroy (RDestroy err) c = Some (destroy_cb err c)"
| "resume (PCreate k d) (RCreate err) c = Some (create_cb k d err c)"
| "resume p r c = None"

fun step :: "action \<Rightarrow> config \<Rightarrow> config option" where
  "step (Respond i r) c =
     (if i < length (pending c)
      then resume (pending c ! i) r
             (c\<lparr>pending := take i (pending c) @ drop (Suc i) (pending c)\<rparr>)
      else None)"
| "step (Traverse name args) c =
     (case given_exits c of
        None \<Rightarrow> None
      | Some given \<Rightarrow>
          (case given name of
             None \<Rightarrow> None
           | Some f \<Rightarrow> Some (call_exit f args c)))"

text \<open>A schedule is a run when each of its actions is possible where it is taken.\<close>

fun run :: "action list \<Rightarrow> config \<Rightarrow> config option" where
  "run [] c = Some c"
| "run (a # as) c = (case step a c of None \<Rightarrow> None | Some c' \<Rightarrow> run as c')"

text \<open>
  Repeated invocations of one machine instance: each call of \<open>exec\<close> has its own exits
  argument, clock reading and schedule, and works on the machine the call before left.
  The result lists the final state of every invocation.
\<close>

fun exec_many ::
  "((string \<rightharpoonup> handler) option \<times> int \<times> action list) list \<Rightarrow> machine \<Rightarrow> config list option" where
  "exec_many [] m = Some []"
| "exec_many ((xs, now, acts) # calls) m =
     (case run acts (exec xs now m) of
        None \<Rightarrow> None
      | Some c \<Rightarrow>
          (case exec_many calls (self c) of
             None \<Rightarrow> None
           | Some cs \<Rightarrow> Some (c # cs)))"

subsection \<open>Reading a trace\<close>

text \<open>An event in which a continuation of the caller is entered.\<close>

fun reaches_caller :: "event \<Rightarrow> bool" where
  "reaches_caller (CallExit k args) = True"
| "reaches_caller (Unhandled name args) = True"
| "reaches_caller ev = False"

fun is_RunFn :: "event \<Rightarrow> bool" where
  "is_RunFn (RunFn f t ins xs ctx) = True"
| "is_RunFn ev = False"

fun is_store_op :: "event \<Rightarrow> bool" where
  "is_store_op (Issue st r) = True"
| "is_store_op ev = False"

fun is_CallExit :: "event \<Rightarrow> bool" where
  "is_CallExit (CallExit k args) = True"
| "is_CallExit ev = False"

text \<open>The value of an input as the unit's function receives it.\<close>

fun seen_input :: "string \<Rightarrow> event \<Rightarrow> jsval option" where
  "seen_input name (RunFn f t ins xs ctx) = ins name"
| "seen_input name ev = None"

text \<open>The call of the function that a run in state \<open>c\<close> makes, if it makes one.\<close>

definition the_call :: "config \<Rightarrow> event" where
  "the_call c =
     RunFn (fn (self c)) (ThisVal (configuredContexts (self c))) (configuredInputs (self c))
       (interceptedExits (cache c) (run_hash c) (configuredExits (self c)))
       (configuredContexts (self c))"

section \<open>A reference store\<close>

text \<open>
  Modelled from the spec: the store is a collaborator outside this repository, and the
  code only sends it criteria. Section 6 of the specification gives its contract: an
  equality filter on the hash, a comparison of \<open>createdAt\<close> with a cutoff, a descending
  sort, a limit, and for \<open>destroy\<close> an offset that preserves the newest \<open>skip\<close> entries.
  The store is a list of entries; a query whose hash is undefined matches no entry.
\<close>

definition satisfies :: "comparator \<Rightarrow> int \<Rightarrow> int \<Rightarrow> bool" where
  "satisfies cmp t cutoff =
     (case cmp of GreaterThan \<Rightarrow> t > cutoff | LessOrEqual \<Rightarrow> t \<le> cutoff)"

definition matches :: "criteria \<Rightarrow> entry \<Rightarrow> bool" where
  "matches crit e =
     (where_hash crit = Some (hash e) \<and>
      satisfies (fst (where_createdAt crit)) (createdAt e) (snd (where_createdAt crit)))"

definition newest_first :: "entry list \<Rightarrow> entry list" where
  "newest_first es = sort_key (\<lambda>e. - createdAt e) es"

definition selected :: "criteria \<Rightarrow> entry list \<Rightarrow> entry list" where
  "selected crit es =
     (let found = filter (matches crit) es
      in (case sort_by crit of None \<Rightarrow> found | Some CreatedAtDesc \<Rightarrow> newest_first found))"

definition offset :: "criteria \<Rightarrow> nat" where
  "offset crit = (case skip crit of None \<Rightarrow> 0 | Some n \<Rightarrow> n)"

definition store_find :: "criteria \<Rightarrow> entry list \<Rightarrow> entry list" where
  "store_find crit es =
     (let rows = drop (offset crit) (selected crit es)
      in (case limit crit of None \<Rightarrow> rows | Some n \<Rightarrow> take n rows))"

definition store_count :: "criteria \<Rightarrow> entry list \<Rightarrow> nat" where
  "store_count crit es = length (filter (matches crit) es)"

text \<open>The entries a \<open>destroy\<close> removes, and the store it leaves.\<close>

definition store_destroyed :: "criteria \<Rightarrow> entry list \<Rightarrow> entry list" where
  "store_destroyed crit es = drop (offset crit) (selected crit es)"

definition store_destroy :: "criteria \<Rightarrow> entry list \<Rightarrow> entry list" where
  "store_destroy crit es =
     filter (\<lambda>e. \<not> matches crit e) es @ take (offset crit) (selected crit es)"

definition store_create :: "string \<Rightarrow> jsval \<Rightarrow> int \<Rightarrow> entry list \<Rightarrow> entry list" where
  "store_create h d t es = es @ [\<lparr> hash = h, data = d, createdAt = t \<rparr>]"

section \<open>The phases of a run\<close>

text \<open>
  A run of \<open>exec\<close> on a full model object waits for the hash, then for the lookup, and
  then either has been served from the cache or has started the unit's function.
\<close>

definition awaiting_hash :: "config \<Rightarrow> bool" where
  "awaiting_hash c \<longleftrightarrow>
     pending c = [PHash] \<and> given_exits c = None \<and> run_hash c = None \<and>
     cache c \<noteq> None \<and> events c = [CalculateHash] \<and> extras c = full_model"

definition find_issue :: "config \<Rightarrow> event list" where
  "find_issue c =
     (case cache c of
        None \<Rightarrow> []
      | Some cfg \<Rightarrow>
          [Issue (c_model cfg)
             (Find (buildFindCriteria
                \<lparr> opt_hash = run_hash c, opt_expirationDate = c_expirationDate cfg \<rparr>))])"

definition awaiting_find :: "config \<Rightarrow> bool" where
  "awaiting_find c \<longleftrightarrow>
     pending c = [PFind] \<and> given_exits c = None \<and> cache c \<noteq> None \<and>
     events c = CalculateHash # find_issue c \<and> extras c = full_model"

definition served_from_cache :: "config \<Rightarrow> bool" where
  "served_from_cache c \<longleftrightarrow>
     pending c = [] \<and> given_exits c = None \<and> cache c \<noteq> None \<and> extras c = full_model \<and>
     (\<exists>d. d \<noteq> JUndefined \<and>
        events c = CalculateHash # find_issue c @
          [switchback_call (configuredExits (self c)) JNull d])"

definition running :: "config \<Rightarrow> bool" where
  "running c \<longleftrightarrow>
     given_exits c = Some (interceptedExits (cache c) (run_hash c) (configuredExits (self c))) \<and>
     PHash \<notin> set (pending c) \<and> PFind \<notin> set (pending c) \<and> extras c = full_model \<and>
     filter is_RunFn (events c) = [the_call c] \<and>
     (\<forall>cfg. cache c = Some cfg \<longrightarrow>
        Issue (c_model cfg) (Count (gc_criteria cfg (run_hash c))) \<in> set (events c)) \<and>
     (cache c = None \<longrightarrow>
        pending c = [] \<and> (\<forall>ev \<in> set (events c). is_RunFn ev \<or> is_CallExit ev))"

definition inv :: "config \<Rightarrow> bool" where
  "inv c \<longleftrightarrow> awaiting_hash c \<or> awaiting_find c \<or> served_from_cache c \<or> running c"

text \<open>The state after the hash has been derived.\<close>

definition looking_up :: "config \<Rightarrow> cache_cfg \<Rightarrow> string option \<Rightarrow> config" where
  "looking_up c0 cfg hv =
     \<lparr> self = self c0, cache = Some cfg, run_hash = hv,
       events = [CalculateHash,
                 Issue (c_model cfg)
                   (Find (buildFindCriteria
                      \<lparr> opt_hash = hv, opt_expirationDate = c_expirationDate cfg \<rparr>))],
       pending = [PFind], given_exits = None, extras = full_model \<rparr>"

section \<open>A configured machine to run the model on\<close>

definition demo_settings :: cache_obj where
  "demo_settings =
     \<lparr> model = Some (ModelObject 3 True True), ttl = Some 1000,
       maxOldEntriesBuffer = Some 1, exit = None, expirationDate = None \<rparr>"

definition demo_machine :: machine where
  "demo_machine =
     \<lparr> fn = 7,
       configuredInputs = [''a'' \<mapsto> JNum 1],
       configuredExits = [''success'' \<mapsto> Handler 0, ''error'' \<mapsto> Handler 1],
       dependencies = JObj 1,
       configuredContexts = JObj 2,
       cacheSettings = Some demo_settings \<rparr>"

definition demo_cfg :: cache_cfg where
  "demo_cfg =
     \<lparr> c_model = 3, c_ttl = 1000, c_maxOldEntriesBuffer = 1, c_exit = ''success'',
       c_expirationDate = 4000 \<rparr>"

definition demo_entry :: "int \<Rightarrow> entry" where
  "demo_entry t = \<lparr> hash = ''h'', data = JObj 9, createdAt = t \<rparr>"

definition custom_machine :: machine where
  "custom_machine =
     \<lparr> fn = 8,
       configuredInputs = Map.empty,
       configuredExits = [''success'' \<mapsto> Handler 0, ''error'' \<mapsto> Handler 1,
                          ''notFound'' \<mapsto> Handler 2],
       dependencies = JObj 1,
       configuredContexts = JUndefined,
       cacheSettings = Some (demo_settings\<lparr>exit := Some ''notFound''\<rparr>) \<rparr>"

definition custom_cfg :: cache_cfg where
  "custom_cfg = demo_cfg\<lparr>c_exit := ''notFound''\<rparr>"

section \<open>The garbage collector within a run\<close>

fun is_count_wait :: "pending \<Rightarrow> bool" where
  "is_count_wait PCount = True"
| "is_count_wait p = False"

fun is_destroy_op :: "event \<Rightarrow> bool" where
  "is_destroy_op (Issue st (Destroy crit)) = True"
| "is_destroy_op ev = False"

text \<open>The count of the garbage collector is asked for at most once, and only its answer
  can issue a destroy.\<close>

definition gc_budget :: "config \<Rightarrow> nat" where
  "gc_budget c =
     length (filter is_count_wait (pending c)) + length (filter is_destroy_op (events c))"

text \<open>An entry of hash \<open>h\<close> that is not fresh at the cutoff.\<close>

definition stale :: "string \<Rightarrow> int \<Rightarrow> entry \<Rightarrow> bool" where
  "stale h cutoff e \<longleftrightarrow> hash e = h \<and> createdAt e \<le> cutoff"

text \<open>A run that only calls the function and exits of the caller.\<close>

definition no_store_traffic :: "config \<Rightarrow> bool" where
  "no_store_traffic c \<longleftrightarrow>
     list_all (\<lambda>ev. \<not> is_store_op ev \<and> (is_RunFn ev \<or> is_CallExit ev)) (events c) \<and>
     filter is_RunFn (events c) = [the_call c] \<and> pending c = [] \<and> cache c = None"

section \<open>Further machines and a store to run the model on\<close>

definition demo_store :: "entry list" where
  "demo_store =
     [demo_entry 1000, demo_entry 4500, demo_entry 3000,
      \<lparr> hash = ''other'', data = JNum 0, createdAt = 1000 \<rparr>, demo_entry 2000]"

definition broken_machine :: machine where
  "broken_machine =
     demo_machine\<lparr> cacheSettings :=
        Some (demo_settings\<lparr> model := Some (ModelObject 3 True False) \<rparr>) \<rparr>"

text \<open>
  A model object with a \<open>find\<close> and a \<open>create\<close> and nothing else: what the validation of
  lines 53 to 59 asks of it.
\<close>

definition bare_model :: model_extras where
  "bare_model = \<lparr> has_count = False, has_destroy = False \<rparr>"

definition plain_machine :: machine where
  "plain_machine = custom_machine\<lparr> cacheSettings := None \<rparr>"

definition falsy_machine :: machine where
  "falsy_machine = demo_machine\<lparr> configuredInputs := [''a'' \<mapsto> JNum 1, ''_cache'' \<mapsto> JBool False] \<rparr>"

definition override_machine :: machine where
  "override_machine =
     demo_machine\<lparr> configuredInputs :=
       [''a'' \<mapsto> JNum 1,
        ''_cache'' \<mapsto> JSettings \<lparr> model = None, ttl = Some 50, maxOldEntriesBuffer = None,
                                  exit = None, expirationDate = None \<rparr>] \<rparr>"

fun third_argument :: "event \<Rightarrow> jsval option" where
  "third_argument (RunFn f t ins xs ctx) = Some ctx"
| "third_argument ev = None"

definition override_settings :: cache_obj where
  "override_settings =
     \<lparr> model = None, ttl = Some 50, maxOldEntriesBuffer = None, exit = None,
       expirationDate = None \<rparr>"

section \<open>Every run stays within the phases\<close>

lemmas run_defs = exec_def exec_on_def full_model_def prepare_def setExits_def consume_cache_input_def valid_cache_def
  tryCacheLookup_def fresh_run_def apply_defaults_def normalized_obj_def model_store_def
  hash_cb_def find_cb_def count_cb_def destroy_cb_def create_cb_def call_exit_def
  justRunMachine_def interceptedExits_def gc_criteria_def destroy_criteria_def
  buildFindCriteria_def switchback_call_def invoke_def extend_def override_def Let_def

lemma the_call_simps [simp]:
  "the_call (c\<lparr>events := es\<rparr>) = the_call c"
  "the_call (c\<lparr>pending := ps\<rparr>) = the_call c"
  "the_call (c\<lparr>given_exits := g\<rparr>) = the_call c"
  "the_call (c\<lparr>extras := x\<rparr>) = the_call c"
  by (simp_all add: the_call_def)

lemma is_RunFn_the_call [simp]: "is_RunFn (the_call c)"
  by (simp add: the_call_def)

lemma not_RunFn_switchback [simp]: "\<not> is_RunFn (switchback_call hs e d)"
  by (simp add: switchback_call_def invoke_def split: option.splits)

lemma full_model_simps [simp]: "has_count full_model" "has_destroy full_model"
  by (simp_all add: full_model_def)

lemma justRunMachine_running:
  assumes "given_exits c = None" "filter is_RunFn (events c) = []"
    "PHash \<notin> set (pending c)" "PFind \<notin> set (pending c)"
    "cache c = None \<longrightarrow> pending c = [] \<and> events c = [] \<and> \<not> truthy err"
    "extras c = full_model"
  shows "running (justRunMachine err c)"
  using assms
  by (auto simp: running_def justRunMachine_def the_call_def Let_def split: option.splits)

lemma step_inv:
  assumes "inv c" "step a c = Some c'"
  shows "inv c'"
proof (cases a)
  case (Respond i r)
  with assms(2) have i: "i < length (pending c)"
    and res: "resume (pending c ! i) r (c\<lparr>pending := take i (pending c) @ drop (Suc i) (pending c)\<rparr>) = Some c'"
    by (auto split: if_splits)
  let ?c = "c\<lparr>pending := take i (pending c) @ drop (Suc i) (pending c)\<rparr>"
  from assms(1) consider (h) "awaiting_hash c" | (f) "awaiting_find c"
    | (s) "served_from_cache c" | (r) "running c"
    by (auto simp: inv_def)
  then show ?thesis
  proof cases
    case h
    with i have i0: "i = 0" and p: "pending c ! i = PHash" by (auto simp: awaiting_hash_def)
    from res p obtain e hv where r: "r = RHash e hv" and c': "c' = hash_cb e hv ?c"
      by (cases r) auto
    show ?thesis
    proof (cases "truthy e")
      case True
      have "running (justRunMachine e ?c)"
        using h i0 by (intro justRunMachine_running) (auto simp: awaiting_hash_def)
      with True c' show ?thesis by (simp add: inv_def hash_cb_def)
    next
      case False
      with h i0 c' have "awaiting_find c'"
        by (auto simp: awaiting_hash_def awaiting_find_def hash_cb_def find_issue_def split: option.splits)
      then show ?thesis by (simp add: inv_def)
    qed
  next
    case f
    with i have i0: "i = 0" and p: "pending c ! i = PFind" by (auto simp: awaiting_find_def)
    from res p obtain e cached where r: "r = RFind e cached" and c': "c' = find_cb e cached ?c"
      by (cases r) auto
    have jr: "running (justRunMachine x ?c)" for x
      using f i0 by (intro justRunMachine_running) (auto simp: awaiting_find_def find_issue_def split: option.splits)
    show ?thesis
    proof (cases "truthy e \<or> cached = [] \<or> data (hd cached) = JUndefined")
      case True
      with c' jr show ?thesis
        by (auto simp: inv_def find_cb_def split: list.splits)
    next
      case False
      with f i0 c' have "served_from_cache c'"
        by (auto simp: awaiting_find_def served_from_cache_def find_cb_def find_issue_def split: list.splits option.splits)
      then show ?thesis by (simp add: inv_def)
    qed
  next
    case s
    with i show ?thesis by (simp add: served_from_cache_def)
  next
    case r
    from r i have ne: "cache c \<noteq> None" by (auto simp: running_def)
    have np: "PHash \<notin> set (pending ?c)" "PFind \<notin> set (pending ?c)"
      using r by (auto simp: running_def dest: in_set_takeD in_set_dropD)
    from r i have pk: "pending c ! i \<noteq> PHash" "pending c ! i \<noteq> PFind"
      by (auto simp: running_def dest: nth_mem)
    have "running c'"
    proof (cases "pending c ! i")
      case PCount
      with res obtain e n where "r = RCount e n" and c': "c' = count_cb e n ?c" by (cases r) auto
      with r np ne show ?thesis
        by (auto simp: running_def count_cb_def the_call_def Let_def split: option.splits)
    next
      case PDestroy
      with res obtain e where "r = RDestroy e" and c': "c' = destroy_cb e ?c" by (cases r) auto
      with r np ne show ?thesis
        by (auto simp: running_def destroy_cb_def the_call_def)
    next
      case (PCreate k d)
      with res obtain e where "r = RCreate e" and c': "c' = create_cb k d e ?c" by (cases r) auto
      with r np ne show ?thesis
        by (auto simp: running_def create_cb_def the_call_def Let_def)
    qed (use pk in auto)
    then show ?thesis by (simp add: inv_def)
  qed
next
  case (Traverse name args)
  with assms(2) obtain g f where g: "given_exits c = Some g" and f: "g name = Some f"
    and c': "c' = call_exit f args c"
    by (auto split: option.splits)
  from assms(1) g have r: "running c"
    by (auto simp: inv_def awaiting_hash_def awaiting_find_def served_from_cache_def)
  have "running c'"
  proof (cases f)
    case (Original k)
    with r c' show ?thesis by (auto simp: running_def call_exit_def the_call_def)
  next
    case (Intercepted st h k)
    with r g f have "cache c \<noteq> None"
      by (auto simp: running_def interceptedExits_def split: option.splits)
    with Intercepted r c' show ?thesis
      by (auto simp: running_def call_exit_def the_call_def Let_def)
  qed
  then show ?thesis by (simp add: inv_def)
qed

lemma run_inv: "inv c \<Longrightarrow> run acts c = Some c' \<Longrightarrow> inv c'"
  by (induction acts arbitrary: c) (auto split: option.splits dest: step_inv)

lemma exec_inv: "inv (exec xs now m)"
proof (cases "valid_cache (cacheSettings (prepare xs m))")
  case True
  then obtain s where "cacheSettings (prepare xs m) = Some s"
    by (auto simp: valid_cache_def split: option.splits)
  with True have "awaiting_hash (exec xs now m)"
    by (simp add: exec_def exec_on_def Let_def tryCacheLookup_def fresh_run_def awaiting_hash_def)
  then show ?thesis by (simp add: inv_def)
next
  case False
  have "running (justRunMachine JUndefined (fresh_run full_model (prepare xs m) None))"
    by (intro justRunMachine_running) (simp_all add: fresh_run_def)
  with False show ?thesis
    by (simp add: exec_def exec_on_def Let_def tryCacheLookup_def inv_def fresh_run_def)
qed

section \<open>The reference store\<close>

lemma mset_newest_first [simp]: "mset (newest_first es) = mset es"
  by (simp add: newest_first_def)

lemma set_newest_first [simp]: "set (newest_first es) = set es"
  by (simp add: newest_first_def)

lemma length_newest_first [simp]: "length (newest_first es) = length es"
  by (simp add: newest_first_def)

lemma sorted_newest_first: "sorted (map (\<lambda>e. - createdAt e) (newest_first es))"
  by (simp add: newest_first_def)

lemma newest_first_split:
  assumes "x \<in> set (take k (newest_first es))" "y \<in> set (drop k (newest_first es))"
  shows "createdAt y \<le> createdAt x"
proof -
  have "sorted (map (\<lambda>e. - createdAt e) (take k (newest_first es) @ drop k (newest_first es)))"
    using sorted_newest_first by simp
  then have "\<forall>a \<in> set (take k (newest_first es)). \<forall>b \<in> set (drop k (newest_first es)).
      - createdAt a \<le> - createdAt b"
    unfolding map_append sorted_append by auto
  with assms show ?thesis by auto
qed

lemma matches_find:
  "matches (buildFindCriteria \<lparr>opt_hash = Some h, opt_expirationDate = cutoff\<rparr>) e
     \<longleftrightarrow> hash e = h \<and> cutoff < createdAt e"
  by (auto simp: matches_def buildFindCriteria_def satisfies_def)

lemma store_find_lookup:
  "store_find (buildFindCriteria \<lparr>opt_hash = Some h, opt_expirationDate = cutoff\<rparr>) es
     = take 1 (newest_first (filter (\<lambda>e. hash e = h \<and> cutoff < createdAt e) es))"
proof -
  have "filter (matches (buildFindCriteria \<lparr>opt_hash = Some h, opt_expirationDate = cutoff\<rparr>)) es
      = filter (\<lambda>e. hash e = h \<and> cutoff < createdAt e) es"
    by (rule filter_cong) (simp_all add: matches_find)
  then show ?thesis
    by (simp add: store_find_def selected_def offset_def buildFindCriteria_def Let_def)
qed

lemma take1_newest:
  assumes "e \<in> set fs"
  shows "\<exists>n. take 1 (newest_first fs) = [n] \<and> n \<in> set fs \<and> createdAt e \<le> createdAt n"
proof -
  from assms have "newest_first fs \<noteq> []"
    by (metis empty_iff list.set(1) set_newest_first)
  then obtain n rest where nr: "newest_first fs = n # rest" by (cases "newest_first fs") auto
  have n: "n \<in> set fs" using nr by (metis list.set_intros(1) set_newest_first)
  have "createdAt e \<le> createdAt n"
  proof (cases "e = n")
    case False
    from assms have "e \<in> set (n # rest)" using nr by (metis set_newest_first)
    with False have "e \<in> set (drop 1 (newest_first fs))" using nr by simp
    moreover have "n \<in> set (take 1 (newest_first fs))" using nr by simp
    ultimately show ?thesis by (rule newest_first_split[rotated])
  qed simp
  with nr n show ?thesis by simp
qed

section \<open>The steps of the lookup\<close>

lemma step_frame:
  assumes "step a c = Some c'"
  shows "self c' = self c \<and> cache c' = cache c"
proof (cases a)
  case (Respond i r)
  with assms have res: "resume (pending c ! i) r (c\<lparr>pending := take i (pending c) @ drop (Suc i) (pending c)\<rparr>) = Some c'"
    by (auto split: if_splits)
  show ?thesis
  proof (cases "pending c ! i")
    case PHash
    with res show ?thesis
      by (cases r) (auto simp: hash_cb_def justRunMachine_def Let_def split: option.splits if_splits)
  next
    case PFind
    with res show ?thesis
      by (cases r) (auto simp: find_cb_def justRunMachine_def Let_def split: list.splits if_splits)
  next
    case PCount
    with res show ?thesis
      by (cases r) (auto simp: count_cb_def Let_def split: option.splits if_splits)
  next
    case PDestroy
    with res show ?thesis
      by (cases r) (auto simp: destroy_cb_def split: if_splits)
  next
    case (PCreate k d)
    with res show ?thesis
      by (cases r) (auto simp: create_cb_def Let_def split: if_splits)
  qed
next
  case (Traverse name args)
  with assms show ?thesis
    by (auto simp: call_exit_def Let_def split: option.splits exit_fn.splits)
qed

lemma run_frame: "run acts c = Some c' \<Longrightarrow> self c' = self c \<and> cache c' = cache c"
proof (induction acts arbitrary: c)
  case Nil
  then show ?case by simp
next
  case (Cons a acts)
  then obtain c1 where s: "step a c = Some c1" and r: "run acts c1 = Some c'"
    by (auto split: option.splits)
  from step_frame[OF s] Cons.IH[OF r] show ?case by simp
qed

lemma exec_disabled:
  assumes "\<not> valid_cache (cacheSettings (prepare xs m))"
  shows "exec xs now m = justRunMachine JUndefined (fresh_run full_model (prepare xs m) None)"
  using assms by (simp add: exec_def exec_on_def Let_def tryCacheLookup_def fresh_run_def)

lemma exec_enabled:
  assumes "valid_cache (cacheSettings (prepare xs m))"
  shows "\<exists>s. cacheSettings (prepare xs m) = Some s \<and>
     exec xs now m =
       \<lparr> self = (prepare xs m)\<lparr>cacheSettings := Some (normalized_obj s (apply_defaults now s))\<rparr>,
         cache = Some (apply_defaults now s), run_hash = None,
         events = [CalculateHash], pending = [PHash], given_exits = None,
         extras = full_model \<rparr>"
proof -
  from assms obtain s where "cacheSettings (prepare xs m) = Some s"
    by (auto simp: valid_cache_def split: option.splits)
  with assms show ?thesis
    by (simp add: exec_def exec_on_def Let_def tryCacheLookup_def fresh_run_def)
qed

lemma cache_exec_None:
  "cache (exec xs now m) = None \<longleftrightarrow> \<not> valid_cache (cacheSettings (prepare xs m))"
proof (cases "valid_cache (cacheSettings (prepare xs m))")
  case True
  from exec_enabled[OF this, of now] show ?thesis using True by auto
next
  case False
  then show ?thesis
    by (simp add: exec_disabled justRunMachine_def fresh_run_def Let_def)
qed

lemma exec_awaiting_hash:
  assumes "cache (exec xs now m) = Some cfg"
  shows "exec xs now m =
     \<lparr> self = self (exec xs now m), cache = Some cfg, run_hash = None,
       events = [CalculateHash], pending = [PHash], given_exits = None,
         extras = full_model \<rparr>"
proof -
  from assms have "valid_cache (cacheSettings (prepare xs m))"
    using cache_exec_None[of xs now m] by auto
  from exec_enabled[OF this, of now] obtain s where
    e: "exec xs now m =
       \<lparr> self = (prepare xs m)\<lparr>cacheSettings := Some (normalized_obj s (apply_defaults now s))\<rparr>,
         cache = Some (apply_defaults now s), run_hash = None,
         events = [CalculateHash], pending = [PHash], given_exits = None,
         extras = full_model \<rparr>" by blast
  with assms have "apply_defaults now s = cfg" by simp
  with e show ?thesis by simp
qed

lemma exec_cutoff:
  assumes "cache (exec xs now m) = Some cfg"
  shows "c_expirationDate cfg = now - c_ttl cfg"
proof -
  from assms have "valid_cache (cacheSettings (prepare xs m))"
    using cache_exec_None[of xs now m] by auto
  from exec_enabled[OF this, of now] assms obtain s where "apply_defaults now s = cfg" by auto
  then show ?thesis by (auto simp: apply_defaults_def Let_def)
qed


lemma hash_derived:
  assumes "cache (exec xs now m) = Some cfg" "\<not> truthy herr"
  shows "step (Respond 0 (RHash herr hv)) (exec xs now m) = Some (looking_up (exec xs now m) cfg hv)"
  apply (subst exec_awaiting_hash[OF assms(1)])
  apply (subst (2) exec_awaiting_hash[OF assms(1)])
  using assms(2) apply (simp add: hash_cb_def looking_up_def)
  done

lemma hash_failed:
  assumes "cache (exec xs now m) = Some cfg" "truthy err"
  shows "step (Respond 0 (RHash err hv)) (exec xs now m) =
     Some \<lparr> self = self (exec xs now m), cache = Some cfg, run_hash = None,
            events = [CalculateHash, Warn err, Issue (c_model cfg) (Count (gc_criteria cfg None)),
                      RunFn (fn (self (exec xs now m)))
                        (ThisVal (configuredContexts (self (exec xs now m))))
                        (configuredInputs (self (exec xs now m)))
                        (interceptedExits (Some cfg) None (configuredExits (self (exec xs now m))))
                        (configuredContexts (self (exec xs now m)))],
            pending = [PCount],
            given_exits = Some (interceptedExits (Some cfg) None (configuredExits (self (exec xs now m)))),
            extras = full_model \<rparr>"
  apply (subst exec_awaiting_hash[OF assms(1)])
  using assms(2) apply (simp add: hash_cb_def justRunMachine_def Let_def)
  done

lemma lookup_missed:
  assumes "truthy err \<or> cached = [] \<or> data (hd cached) = JUndefined"
  shows "step (Respond 0 (RFind err cached)) (looking_up c0 cfg hv) =
     Some \<lparr> self = self c0, cache = Some cfg, run_hash = hv,
            events = [CalculateHash,
                      Issue (c_model cfg)
                        (Find (buildFindCriteria
                           \<lparr> opt_hash = hv, opt_expirationDate = c_expirationDate cfg \<rparr>))] @
                     (if truthy err then [Warn err] else []) @
                     [Issue (c_model cfg) (Count (gc_criteria cfg hv)),
                      RunFn (fn (self c0)) (ThisVal (configuredContexts (self c0)))
                        (configuredInputs (self c0))
                        (interceptedExits (Some cfg) hv (configuredExits (self c0)))
                        (configuredContexts (self c0))],
            pending = [PCount],
            given_exits = Some (interceptedExits (Some cfg) hv (configuredExits (self c0))),
            extras = full_model \<rparr>"
  using assms
  by (cases cached) (auto simp: looking_up_def find_cb_def justRunMachine_def Let_def)

lemma lookup_hit:
  assumes "\<not> truthy err" "data e \<noteq> JUndefined"
  shows "step (Respond 0 (RFind err (e # rest))) (looking_up c0 cfg hv) =
     Some ((looking_up c0 cfg hv)
            \<lparr> pending := [],
              events := events (looking_up c0 cfg hv) @
                [switchback_call (configuredExits (self c0)) JNull (data e)] \<rparr>)"
  using assms
  by (simp add: looking_up_def find_cb_def)

lemmas demo_defs = demo_settings_def demo_machine_def demo_cfg_def demo_entry_def

lemma demo_cache: "cache (exec None 5000 demo_machine) = Some demo_cfg"
  by (simp add: run_defs demo_defs)

section \<open>From one invocation to the next\<close>

lemma consumed_input:
  "configuredInputs (consume_cache_input m) ''_cache'' = Some v \<Longrightarrow> \<not> truthy v"
  by (auto simp: consume_cache_input_def split: option.splits if_splits)

lemma consume_noop:
  "(\<And>v. configuredInputs m ''_cache'' = Some v \<Longrightarrow> \<not> truthy v) \<Longrightarrow> consume_cache_input m = m"
  by (auto simp: consume_cache_input_def split: option.splits)

lemma prepare_inputs_consumed:
  "configuredInputs (prepare xs m) ''_cache'' = Some v \<Longrightarrow> \<not> truthy v"
  unfolding prepare_def by (rule consumed_input)

lemma prepare_after:
  assumes "\<And>v. configuredInputs m ''_cache'' = Some v \<Longrightarrow> \<not> truthy v"
  shows "cacheSettings (prepare xs m) = cacheSettings m"
    and "configuredInputs (prepare xs m) = configuredInputs m"
proof -
  let ?m1 = "case xs of Some x \<Rightarrow> setExits x m | None \<Rightarrow> m"
  have i: "configuredInputs ?m1 = configuredInputs m" and s: "cacheSettings ?m1 = cacheSettings m"
    by (auto simp: setExits_def split: option.splits)
  have "consume_cache_input ?m1 = ?m1"
    by (rule consume_noop) (use assms i in auto)
  then show "cacheSettings (prepare xs m) = cacheSettings m"
    and "configuredInputs (prepare xs m) = configuredInputs m"
    using i s by (simp_all add: prepare_def)
qed

lemma valid_normalized:
  "valid_cache (Some (normalized_obj s cfg)) = valid_cache (Some s)"
  by (simp add: valid_cache_def normalized_obj_def)

lemma self_exec_inputs:
  "configuredInputs (self (exec xs now m)) = configuredInputs (prepare xs m)"
proof (cases "valid_cache (cacheSettings (prepare xs m))")
  case True
  from exec_enabled[OF this, of now] show ?thesis by auto
next
  case False
  then show ?thesis by (simp add: exec_disabled justRunMachine_def fresh_run_def Let_def)
qed

lemma self_exec_exits:
  "configuredExits (self (exec xs now m)) = configuredExits (prepare xs m)"
proof (cases "valid_cache (cacheSettings (prepare xs m))")
  case True
  from exec_enabled[OF this, of now] show ?thesis by auto
next
  case False
  then show ?thesis by (simp add: exec_disabled justRunMachine_def fresh_run_def Let_def)
qed

lemma self_exec_valid:
  "valid_cache (cacheSettings (self (exec xs now m))) = valid_cache (cacheSettings (prepare xs m))"
proof (cases "valid_cache (cacheSettings (prepare xs m))")
  case True
  from exec_enabled[OF this, of now] obtain s where
    "cacheSettings (prepare xs m) = Some s"
    "cacheSettings (self (exec xs now m)) = Some (normalized_obj s (apply_defaults now s))"
    by auto
  then show ?thesis by (simp add: valid_normalized)
next
  case False
  then show ?thesis by (simp add: exec_disabled justRunMachine_def fresh_run_def Let_def)
qed

lemma next_invocation:
  "cache (exec xs' now' (self (exec xs now m))) = None \<longleftrightarrow> cache (exec xs now m) = None"
proof -
  have "cacheSettings (prepare xs' (self (exec xs now m))) = cacheSettings (self (exec xs now m))"
    by (rule prepare_after) (auto simp: self_exec_inputs dest: prepare_inputs_consumed)
  then show ?thesis
    by (simp add: cache_exec_None self_exec_valid)
qed

lemma next_invocation_exit:
  assumes "cache (exec xs now m) = Some cfg" "cache (exec xs' now' (self (exec xs now m))) = Some cfg'"
  shows "c_exit cfg' = c_exit cfg \<and> c_model cfg' = c_model cfg"
proof -
  from assms(1) have v: "valid_cache (cacheSettings (prepare xs m))"
    using cache_exec_None[of xs now m] by auto
  from exec_enabled[OF v, of now] assms(1) obtain s where
    s: "cacheSettings (self (exec xs now m)) = Some (normalized_obj s cfg)" "apply_defaults now s = cfg"
    by auto
  have eq: "cacheSettings (prepare xs' (self (exec xs now m))) = cacheSettings (self (exec xs now m))"
    by (rule prepare_after) (auto simp: self_exec_inputs dest: prepare_inputs_consumed)
  from assms(2) have v': "valid_cache (cacheSettings (prepare xs' (self (exec xs now m))))"
    using cache_exec_None[of xs' now' "self (exec xs now m)"] by auto
  from exec_enabled[OF v', of now'] assms(2) eq s
  have "apply_defaults now' (normalized_obj s cfg) = cfg'" by auto
  with s(2) show ?thesis
    by (auto simp: apply_defaults_def normalized_obj_def model_store_def Let_def)
qed

lemma served_is_final:
  assumes "pending c = []" "given_exits c = None"
  shows "step a c = None"
  using assms by (cases a) auto

lemma run_stuck: "(\<And>a. step a c = None) \<Longrightarrow> acts \<noteq> [] \<Longrightarrow> run acts c = None"
  by (cases acts) auto

lemma invoke_not_RunFn [simp]: "\<not> is_RunFn (invoke hs name args)"
  by (simp add: invoke_def split: option.splits)

section \<open>The order of the lookup\<close>

lemma only_hash_enabled:
  assumes "cache (exec xs now m) = Some cfg" "step a (exec xs now m) = Some c"
  shows "\<exists>e hv. a = Respond 0 (RHash e hv)"
proof -
  note sh = exec_awaiting_hash[OF assms(1)]
  have p: "pending (exec xs now m) = [PHash]" and g: "given_exits (exec xs now m) = None"
    by (subst sh, simp)+
  show ?thesis
  proof (cases a)
    case (Respond i r)
    with assms(2) p have "i = 0" by (auto split: if_splits)
    with Respond assms(2) p show ?thesis by (cases r) auto
  next
    case (Traverse name args)
    with assms(2) g show ?thesis by simp
  qed
qed

lemma only_find_enabled:
  assumes "step a (looking_up c0 cfg hv) = Some c"
  shows "\<exists>e cached. a = Respond 0 (RFind e cached)"
proof (cases a)
  case (Respond i r)
  with assms have "i = 0" by (auto simp: looking_up_def split: if_splits)
  with Respond assms show ?thesis by (cases r) (auto simp: looking_up_def)
next
  case (Traverse name args)
  with assms show ?thesis by (simp add: looking_up_def)
qed

lemma lookup_is_forced:
  assumes "cache (exec xs now m) = Some cfg"
  shows "(\<forall>a acts c. run (a # acts) (exec xs now m) = Some c \<longrightarrow> (\<exists>e hv. a = Respond 0 (RHash e hv))) \<and>
         (\<forall>e hv a acts c. \<not> truthy e \<and> run (Respond 0 (RHash e hv) # a # acts) (exec xs now m) = Some c \<longrightarrow>
            (\<exists>e' cached. a = Respond 0 (RFind e' cached)))"
proof (intro conjI allI impI)
  fix a acts c assume "run (a # acts) (exec xs now m) = Some c"
  then obtain c1 where "step a (exec xs now m) = Some c1" by (auto split: option.splits)
  with assms show "\<exists>e hv. a = Respond 0 (RHash e hv)" by (rule only_hash_enabled)
next
  fix e hv a acts c
  assume h: "\<not> truthy e \<and> run (Respond 0 (RHash e hv) # a # acts) (exec xs now m) = Some c"
  then have s1: "step (Respond 0 (RHash e hv)) (exec xs now m) = Some (looking_up (exec xs now m) cfg hv)"
    using assms by (intro hash_derived) simp_all
  from h have "run (a # acts) (looking_up (exec xs now m) cfg hv) = Some c"
    by (simp only: run.simps s1 option.case)
  then obtain c1 where "step a (looking_up (exec xs now m) cfg hv) = Some c1"
    by (auto split: option.splits)
  then show "\<exists>e' cached. a = Respond 0 (RFind e' cached)" by (rule only_find_enabled)
qed

section \<open>The exit set of a started function\<close>

lemma custom_cache: "cache (exec None 5000 custom_machine) = Some custom_cfg"
  by (simp add: run_defs demo_defs custom_machine_def custom_cfg_def)

lemma running_exits:
  assumes "run acts (exec xs now m) = Some c" "given_exits c = Some g"
  shows "g = interceptedExits (cache c) (run_hash c) (configuredExits (self c))"
proof -
  have "inv c" using exec_inv assms(1) by (rule run_inv)
  with assms(2) show ?thesis
    by (auto simp: inv_def awaiting_hash_def awaiting_find_def served_from_cache_def running_def)
qed

lemma intercepted_lookup:
  assumes "h \<noteq> []" "xs (c_exit cfg) = Some k"
  shows "interceptedExits (Some cfg) (Some h) xs (c_exit cfg) = Some (Intercepted (c_model cfg) h k)"
  using assms by (simp add: interceptedExits_def)

lemma create_answered:
  assumes "i < length (pending c)" "pending c ! i = PCreate k d"
  shows "\<exists>c2. step (Respond i (RCreate err)) c = Some c2 \<and>
      events c2 = events c @ (if truthy err then [Warn err] else []) @ [CallExit k [d]] \<and>
      pending c2 = take i (pending c) @ drop (Suc i) (pending c)"
  using assms by (simp add: create_cb_def Let_def)

lemma demo_exits:
  "configuredExits (self (exec None 5000 demo_machine)) =
     [''success'' \<mapsto> Handler 0, ''error'' \<mapsto> Handler 1]"
  by (simp add: run_defs demo_defs)

lemma demo_missed:
  "\<exists>c. run [Respond 0 (RHash JNull (Some ''h'')), Respond 0 (RFind JNull [])]
         (exec None 5000 demo_machine) = Some c \<and>
       cache c = Some demo_cfg \<and> run_hash c = Some ''h'' \<and> pending c = [PCount] \<and>
       given_exits c = Some (interceptedExits (Some demo_cfg) (Some ''h'')
                         [''success'' \<mapsto> Handler 0, ''error'' \<mapsto> Handler 1]) \<and>
       configuredExits (self c) = [''success'' \<mapsto> Handler 0, ''error'' \<mapsto> Handler 1]"
proof -
  have s1: "step (Respond 0 (RHash JNull (Some ''h''))) (exec None 5000 demo_machine)
      = Some (looking_up (exec None 5000 demo_machine) demo_cfg (Some ''h''))"
    using demo_cache by (rule hash_derived) simp
  have "truthy JNull \<or> ([]::entry list) = [] \<or> data (hd []) = JUndefined" by simp
  note s2 = lookup_missed[OF this, of "exec None 5000 demo_machine" demo_cfg "Some ''h''"]
  from s1 s2 show ?thesis by (simp add: demo_exits)
qed

lemma custom_exits:
  "configuredExits (prepare None (self (exec None 5000 custom_machine))) =
     [''success'' \<mapsto> Handler 0, ''error'' \<mapsto> Handler 1, ''notFound'' \<mapsto> Handler 2]"
  "configuredExits (self (exec None 5000 custom_machine)) =
     [''success'' \<mapsto> Handler 0, ''error'' \<mapsto> Handler 1, ''notFound'' \<mapsto> Handler 2]"
  by (simp_all add: run_defs demo_defs custom_machine_def)

section \<open>The garbage collector counts once\<close>

lemma filter_remove_nth:
  assumes "i < length ps"
  shows "length (filter P ps) =
     length (filter P (take i ps @ drop (Suc i) ps)) + (if P (ps ! i) then 1 else 0)"
proof -
  have "ps = take i ps @ ps ! i # drop (Suc i) ps"
    using assms by (rule id_take_nth_drop)
  then have "filter P ps = filter P (take i ps @ ps ! i # drop (Suc i) ps)" by simp
  then show ?thesis by simp
qed

lemma not_destroy_switchback [simp]: "\<not> is_destroy_op (switchback_call hs e d)"
  by (simp add: switchback_call_def invoke_def split: option.splits)

lemma gc_budget_justRunMachine:
  assumes "pending c = []" "filter is_destroy_op (events c) = []"
  shows "gc_budget (justRunMachine err c) \<le> 1"
  using assms by (simp add: gc_budget_def justRunMachine_def Let_def split: option.splits)

lemma step_gc_budget:
  assumes "inv c" "gc_budget c \<le> 1" "step a c = Some c'"
  shows "gc_budget c' \<le> 1"
proof (cases a)
  case (Respond i r)
  with assms(3) have i: "i < length (pending c)"
    and res: "resume (pending c ! i) r (c\<lparr>pending := take i (pending c) @ drop (Suc i) (pending c)\<rparr>) = Some c'"
    by (auto split: if_splits)
  let ?d = "c\<lparr>pending := take i (pending c) @ drop (Suc i) (pending c)\<rparr>"
  note split = filter_remove_nth[OF i, of is_count_wait]
  show ?thesis
  proof (cases "pending c ! i")
    case PHash
    with res obtain e hv where c': "c' = hash_cb e hv ?d" by (cases r) auto
    from assms(1) PHash i have ah: "awaiting_hash c"
      by (auto simp: inv_def awaiting_find_def served_from_cache_def running_def dest: nth_mem)
    then have "pending ?d = []" "filter is_destroy_op (events ?d) = []"
      using i by (auto simp: awaiting_hash_def)
    from gc_budget_justRunMachine[OF this] ah i c' show ?thesis
      by (auto simp: hash_cb_def gc_budget_def awaiting_hash_def buildFindCriteria_def split: option.splits)
  next
    case PFind
    with res obtain e cached where c': "c' = find_cb e cached ?d" by (cases r) auto
    from assms(1) PFind i have af: "awaiting_find c"
      by (auto simp: inv_def awaiting_hash_def served_from_cache_def running_def dest: nth_mem)
    then have "pending ?d = []" "filter is_destroy_op (events ?d) = []"
      using i by (auto simp: awaiting_find_def find_issue_def split: option.splits)
    from gc_budget_justRunMachine[OF this] af i c' show ?thesis
      by (auto simp: find_cb_def gc_budget_def awaiting_find_def find_issue_def split: option.splits list.splits)
  next
    case PCount
    with res obtain e n where c': "c' = count_cb e n ?d" by (cases r) auto
    with assms(2) split PCount show ?thesis
      by (auto simp: gc_budget_def count_cb_def Let_def split: option.splits)
  next
    case PDestroy
    with res obtain e where c': "c' = destroy_cb e ?d" by (cases r) auto
    with assms(2) split PDestroy show ?thesis
      by (auto simp: gc_budget_def destroy_cb_def)
  next
    case (PCreate k d)
    with res obtain e where c': "c' = create_cb k d e ?d" by (cases r) auto
    with assms(2) split PCreate show ?thesis
      by (auto simp: gc_budget_def create_cb_def Let_def)
  qed
next
  case (Traverse name args)
  with assms(2,3) show ?thesis
    by (auto simp: gc_budget_def call_exit_def Let_def split: option.splits exit_fn.splits)
qed

lemma run_gc_budget:
  "inv c \<Longrightarrow> gc_budget c \<le> 1 \<Longrightarrow> run acts c = Some c' \<Longrightarrow> gc_budget c' \<le> 1"
proof (induction acts arbitrary: c)
  case Nil
  then show ?case by simp
next
  case (Cons a acts)
  then obtain c1 where s: "step a c = Some c1" and r: "run acts c1 = Some c'"
    by (auto split: option.splits)
  from step_inv[OF Cons.prems(1) s] step_gc_budget[OF Cons.prems(1,2) s] r
  show ?case by (rule Cons.IH)
qed

lemma exec_gc_budget: "gc_budget (exec xs now m) \<le> 1"
proof (cases "valid_cache (cacheSettings (prepare xs m))")
  case True
  from exec_enabled[OF this, of now] show ?thesis by (auto simp: gc_budget_def)
next
  case False
  then show ?thesis
    by (simp add: exec_disabled gc_budget_def justRunMachine_def fresh_run_def Let_def)
qed

text \<open>Once the count has been answered, the number of destroys issued is settled.\<close>

lemma step_settled:
  assumes "inv c" "\<forall>p \<in> set (pending c). \<not> is_count_wait p" "given_exits c \<noteq> None"
    and "step a c = Some c'"
  shows "filter is_destroy_op (events c') = filter is_destroy_op (events c) \<and>
         (\<forall>p \<in> set (pending c'). \<not> is_count_wait p) \<and> given_exits c' \<noteq> None"
proof (cases a)
  case (Respond i r)
  with assms(4) have i: "i < length (pending c)"
    and res: "resume (pending c ! i) r (c\<lparr>pending := take i (pending c) @ drop (Suc i) (pending c)\<rparr>) = Some c'"
    by (auto split: if_splits)
  let ?d = "c\<lparr>pending := take i (pending c) @ drop (Suc i) (pending c)\<rparr>"
  from assms(1,3) have run: "running c"
    by (auto simp: inv_def awaiting_hash_def awaiting_find_def served_from_cache_def)
  have rest: "\<forall>p \<in> set (pending ?d). \<not> is_count_wait p"
    using assms(2) by (auto dest: in_set_takeD in_set_dropD)
  from run i have pk: "pending c ! i \<noteq> PHash" "pending c ! i \<noteq> PFind"
    by (auto simp: running_def dest: nth_mem)
  from assms(2) i have pc: "pending c ! i \<noteq> PCount"
    by (metis is_count_wait.simps(1) nth_mem)
  show ?thesis
  proof (cases "pending c ! i")
    case PDestroy
    with res obtain e where c': "c' = destroy_cb e ?d" by (cases r) auto
    with rest assms(3) show ?thesis by (auto simp: destroy_cb_def)
  next
    case (PCreate k d)
    with res obtain e where c': "c' = create_cb k d e ?d" by (cases r) auto
    with rest assms(3) show ?thesis by (auto simp: create_cb_def Let_def)
  qed (use pk pc in auto)
next
  case (Traverse name args)
  with assms(2,3,4) show ?thesis
    by (auto simp: call_exit_def Let_def split: option.splits exit_fn.splits)
qed

lemma run_settled:
  assumes "inv c" "\<forall>p \<in> set (pending c). \<not> is_count_wait p" "given_exits c \<noteq> None"
    and "run acts c = Some c'"
  shows "filter is_destroy_op (events c') = filter is_destroy_op (events c)"
  using assms
proof (induction acts arbitrary: c)
  case Nil
  then show ?case by simp
next
  case (Cons a acts)
  then obtain c1 where s: "step a c = Some c1" and r: "run acts c1 = Some c'"
    by (auto split: option.splits)
  from step_settled[OF Cons.prems(1,2,3) s] step_inv[OF Cons.prems(1) s] r
  show ?case using Cons.IH[of c1] by auto
qed

section \<open>What a destroy removes from the reference store\<close>

lemma matches_gc:
  "matches (gc_criteria cfg (Some h)) = stale h (c_expirationDate cfg)"
  "matches (destroy_criteria cfg (Some h)) = stale h (c_expirationDate cfg)"
  by (auto simp: fun_eq_iff matches_def gc_criteria_def destroy_criteria_def satisfies_def stale_def)

lemma store_count_gc:
  "store_count (gc_criteria cfg (Some h)) es = length (filter (stale h (c_expirationDate cfg)) es)"
  by (simp add: store_count_def matches_gc)

lemma store_destroyed_gc:
  "store_destroyed (destroy_criteria cfg (Some h)) es =
     drop (c_maxOldEntriesBuffer cfg) (newest_first (filter (stale h (c_expirationDate cfg)) es))"
  by (simp add: store_destroyed_def selected_def offset_def matches_gc)
     (simp add: destroy_criteria_def)

lemma store_destroy_gc:
  "store_destroy (destroy_criteria cfg (Some h)) es =
     filter (\<lambda>e. \<not> stale h (c_expirationDate cfg) e) es @
     take (c_maxOldEntriesBuffer cfg) (newest_first (filter (stale h (c_expirationDate cfg)) es))"
  by (simp add: store_destroy_def selected_def offset_def matches_gc)
     (simp add: destroy_criteria_def)

lemma filter_newest_first_all:
  "filter P (take k (newest_first (filter P es))) = take k (newest_first (filter P es))"
  by (rule filter_True) (auto dest!: in_set_takeD)

lemma filter_newest_first_none:
  "filter (\<lambda>e. \<not> P e) (take k (newest_first (filter P es))) = []"
  by (auto simp: filter_empty_conv dest!: in_set_takeD)

lemma retention:
  fixes cfg h es
  defines "k \<equiv> c_maxOldEntriesBuffer cfg"
    and "old \<equiv> stale h (c_expirationDate cfg)"
    and "gone \<equiv> store_destroyed (destroy_criteria cfg (Some h)) es"
    and "kept \<equiv> store_destroy (destroy_criteria cfg (Some h)) es"
  shows "length gone = store_count (gc_criteria cfg (Some h)) es - k"
    and "mset kept + mset gone = mset es"
    and "store_count (gc_criteria cfg (Some h)) kept = min k (store_count (gc_criteria cfg (Some h)) es)"
    and "\<forall>v \<in> set gone. v \<in> set es \<and> hash v = h \<and> createdAt v \<le> c_expirationDate cfg"
    and "\<forall>v \<in> set gone. \<forall>r \<in> set kept. old r \<longrightarrow> createdAt v \<le> createdAt r"
    and "filter (\<lambda>e. \<not> old e) kept = filter (\<lambda>e. \<not> old e) es"
proof -
  let ?s = "newest_first (filter old es)"
  have gone: "gone = drop k ?s" by (simp add: gone_def store_destroyed_gc k_def old_def)
  have kept: "kept = filter (\<lambda>e. \<not> old e) es @ take k ?s"
    by (simp add: kept_def store_destroy_gc k_def old_def)
  have cnt: "store_count (gc_criteria cfg (Some h)) xs = length (filter old xs)" for xs
    by (simp add: store_count_gc old_def)
  show "length gone = store_count (gc_criteria cfg (Some h)) es - k"
    by (simp add: gone cnt)
  have "mset (take k ?s) + mset (drop k ?s) = mset ?s"
    by (metis append_take_drop_id mset_append)
  then have "mset kept + mset gone = mset (filter (\<lambda>e. \<not> old e) es) + mset (filter old es)"
    by (simp add: kept gone add.assoc)
  also have "\<dots> = mset es"
    by (metis mset_filter multiset_partition union_commute)
  finally show "mset kept + mset gone = mset es" .
  have "filter old kept = take k ?s"
    by (simp add: kept filter_newest_first_all)
  then show "store_count (gc_criteria cfg (Some h)) kept = min k (store_count (gc_criteria cfg (Some h)) es)"
    by (simp add: cnt min.commute)
  show "\<forall>v \<in> set gone. v \<in> set es \<and> hash v = h \<and> createdAt v \<le> c_expirationDate cfg"
    unfolding gone by (auto dest!: in_set_dropD simp: old_def stale_def)
  show "\<forall>v \<in> set gone. \<forall>r \<in> set kept. old r \<longrightarrow> createdAt v \<le> createdAt r"
  proof (intro ballI impI)
    fix v r assume v: "v \<in> set gone" and r: "r \<in> set kept" and o: "old r"
    from r o have "r \<in> set (take k ?s)" by (auto simp: kept)
    with v show "createdAt v \<le> createdAt r"
      unfolding gone by (rule newest_first_split[rotated])
  qed
  show "filter (\<lambda>e. \<not> old e) kept = filter (\<lambda>e. \<not> old e) es"
    by (simp add: kept filter_newest_first_none)
qed

lemma count_pending_running:
  assumes "run acts (exec xs now m) = Some c" "i < length (pending c)" "pending c ! i = PCount"
  shows "inv c \<and> running c \<and> filter is_destroy_op (events c) = [] \<and>
     (\<forall>p \<in> set (take i (pending c) @ drop (Suc i) (pending c)). \<not> is_count_wait p)"
proof -
  have inv: "inv c" using exec_inv assms(1) by (rule run_inv)
  have b: "gc_budget c \<le> 1" using exec_inv exec_gc_budget assms(1) by (rule run_gc_budget)
  from assms(2,3) have mem: "PCount \<in> set (pending c)" by (metis nth_mem)
  with inv have run: "running c"
    by (auto simp: inv_def awaiting_hash_def awaiting_find_def served_from_cache_def)
  from filter_remove_nth[OF assms(2), of is_count_wait] assms(3) b
  have "length (filter is_count_wait (take i (pending c) @ drop (Suc i) (pending c))) = 0"
    and "length (filter is_destroy_op (events c)) = 0"
    by (auto simp: gc_budget_def)
  then have "filter is_count_wait (take i (pending c) @ drop (Suc i) (pending c)) = []"
    and "filter is_destroy_op (events c) = []" by simp_all
  with inv run show ?thesis by (auto simp: filter_empty_conv)
qed

lemma demo_store_count: "store_count (gc_criteria demo_cfg (Some ''h'')) demo_store = 3"
  by (simp add: store_count_def matches_def gc_criteria_def satisfies_def demo_store_def demo_defs)

lemma demo_store_destroyed:
  "store_destroyed (destroy_criteria demo_cfg (Some ''h'')) demo_store = [demo_entry 2000, demo_entry 1000]"
  by (simp add: store_destroyed_def selected_def offset_def newest_first_def matches_def
      destroy_criteria_def satisfies_def demo_store_def demo_defs)

section \<open>Runs without a cache\<close>

lemma valid_cache_iff:
  "valid_cache c \<longleftrightarrow> (\<exists>s st. c = Some s \<and> model s = Some (ModelObject st True True))"
  by (auto simp: valid_cache_def split: option.splits model_val.splits)

lemma not_store_op: "is_RunFn ev \<or> is_CallExit ev \<Longrightarrow> \<not> is_store_op ev"
  by (cases ev) auto

lemma disabled_run:
  assumes "cache (exec xs now m) = None" "run acts (exec xs now m) = Some c"
  shows "no_store_traffic c \<and> self c = prepare xs m"
proof -
  have inv: "inv c" using exec_inv assms(2) by (rule run_inv)
  from run_frame[OF assms(2)] assms(1) have f: "cache c = None" "self c = self (exec xs now m)"
    by simp_all
  from assms(1) have "\<not> valid_cache (cacheSettings (prepare xs m))"
    by (simp add: cache_exec_None)
  then have "self (exec xs now m) = prepare xs m"
    by (simp add: exec_disabled justRunMachine_def fresh_run_def Let_def)
  moreover from inv f(1) have "running c"
    by (auto simp: inv_def awaiting_hash_def awaiting_find_def served_from_cache_def)
  then have "no_store_traffic c"
    using f(1) not_store_op unfolding running_def no_store_traffic_def list_all_iff by blast
  ultimately show ?thesis using f(2) by simp
qed

lemma exec_many_disabled:
  assumes "\<not> valid_cache (cacheSettings m)"
    and "\<And>v. configuredInputs m ''_cache'' = Some v \<Longrightarrow> \<not> truthy v"
    and "exec_many calls m = Some cs"
  shows "length cs = length calls \<and> list_all no_store_traffic cs"
  using assms
proof (induction calls arbitrary: m cs)
  case Nil
  then show ?case by simp
next
  case (Cons call calls)
  obtain xs now acts where call: "call = (xs, now, acts)" by (cases call) auto
  from Cons.prems(3) call obtain c cs' where
    r: "run acts (exec xs now m) = Some c" and m': "exec_many calls (self c) = Some cs'"
    and cs: "cs = c # cs'"
    by (auto split: option.splits)
  note pa = prepare_after[of m xs, OF Cons.prems(2)]
  have off: "cache (exec xs now m) = None"
    using Cons.prems(1) pa(1) by (simp add: cache_exec_None)
  from disabled_run[OF off r] have q: "no_store_traffic c" and s: "self c = prepare xs m" by simp_all
  have "length cs' = length calls \<and> list_all no_store_traffic cs'"
  proof (rule Cons.IH[OF _ _ m'])
    show "\<not> valid_cache (cacheSettings (self c))" using Cons.prems(1) pa(1) s by simp
    show "\<not> truthy v" if "configuredInputs (self c) ''_cache'' = Some v" for v
      using that s pa(2) Cons.prems(2) by simp
  qed
  with q cs show ?case by simp
qed

section \<open>The call of the function\<close>

lemma prepare_frame:
  "fn (prepare xs m) = fn m"
  "configuredContexts (prepare xs m) = configuredContexts m"
  "dependencies (prepare xs m) = dependencies m"
  by (auto simp: prepare_def consume_cache_input_def setExits_def split: option.splits)

lemma self_exec_frame:
  "fn (self (exec xs now m)) = fn m"
  "configuredContexts (self (exec xs now m)) = configuredContexts m"
proof -
  show "fn (self (exec xs now m)) = fn m"
  proof (cases "valid_cache (cacheSettings (prepare xs m))")
    case True
    from exec_enabled[OF this, of now] show ?thesis by (auto simp: prepare_frame)
  next
    case False
    then show ?thesis
      by (simp add: exec_disabled justRunMachine_def fresh_run_def Let_def prepare_frame)
  qed
  show "configuredContexts (self (exec xs now m)) = configuredContexts m"
  proof (cases "valid_cache (cacheSettings (prepare xs m))")
    case True
    from exec_enabled[OF this, of now] show ?thesis by (auto simp: prepare_frame)
  next
    case False
    then show ?thesis
      by (simp add: exec_disabled justRunMachine_def fresh_run_def Let_def prepare_frame)
  qed
qed

lemma RunFn_is_the_call:
  assumes "inv c" "ev \<in> set (events c)" "is_RunFn ev"
  shows "ev = the_call c"
proof -
  from assms(1) consider (h) "awaiting_hash c" | (f) "awaiting_find c"
    | (s) "served_from_cache c" | (r) "running c"
    by (auto simp: inv_def)
  then show ?thesis
  proof cases
    case h
    with assms(2,3) show ?thesis by (auto simp: awaiting_hash_def)
  next
    case f
    with assms(2,3) show ?thesis
      by (auto simp: awaiting_find_def find_issue_def split: option.splits)
  next
    case s
    with assms(2,3) show ?thesis
      by (auto simp: served_from_cache_def find_issue_def split: option.splits)
  next
    case r
    from assms(2,3) have "ev \<in> set (filter is_RunFn (events c))" by simp
    with r show ?thesis by (simp add: running_def)
  qed
qed

lemma every_call:
  assumes "run acts (exec xs now m) = Some c" "ev \<in> set (events c)" "is_RunFn ev"
  shows "ev = RunFn (fn m) (ThisVal (configuredContexts m)) (configuredInputs (prepare xs m))
           (interceptedExits (cache c) (run_hash c) (configuredExits (prepare xs m)))
           (configuredContexts m)"
proof -
  have "inv c" using exec_inv assms(1) by (rule run_inv)
  from RunFn_is_the_call[OF this assms(2,3)] have "ev = the_call c" .
  moreover from run_frame[OF assms(1)] have "self c = self (exec xs now m)" by simp
  ultimately show ?thesis
    by (simp add: the_call_def self_exec_frame self_exec_inputs self_exec_exits)
qed

lemma override_input:
  "configuredInputs override_machine ''_cache'' = Some (JSettings override_settings)"
  by (simp add: override_machine_def override_settings_def)

lemma override_cache:
  "cache (exec None 5000 override_machine) = Some (demo_cfg\<lparr>c_ttl := 50, c_expirationDate := 4950\<rparr>)"
  by (simp add: run_defs demo_defs override_machine_def)

lemma falsy_cache: "cache (exec None 5000 falsy_machine) = Some demo_cfg"
  by (simp add: run_defs demo_defs falsy_machine_def)

lemma missed_call:
  assumes "cache (exec xs now m) = Some cfg"
  shows "\<exists>c. run [Respond 0 (RHash JNull (Some ''h'')), Respond 0 (RFind JNull [])] (exec xs now m) = Some c \<and>
     the_call c \<in> set (events c)"
proof -
  have s1: "step (Respond 0 (RHash JNull (Some ''h''))) (exec xs now m)
      = Some (looking_up (exec xs now m) cfg (Some ''h''))"
    using assms by (rule hash_derived) simp
  have "truthy JNull \<or> ([]::entry list) = [] \<or> data (hd []) = JUndefined" by simp
  note s2 = lookup_missed[OF this, of "exec xs now m" cfg "Some ''h''"]
  from s1 s2 show ?thesis by (simp add: the_call_def)
qed

lemma broken_invalid: "\<not> valid_cache (cacheSettings (prepare None broken_machine))"
  by (simp add: run_defs demo_defs broken_machine_def)

lemma broken_twice:
  "exec_many [(None, 5000, [Traverse ''success'' [JNum 1]]), (None, 6000, [])] broken_machine \<noteq> None"
  by (simp add: run_defs demo_defs broken_machine_def)

section \<open>Falling back on a model object with a count\<close>

text \<open>
  On a model object that has \<open>count\<close> and \<open>destroy\<close> (the runs of \<open>exec\<close>), an error of the
  hash derivation or of the lookup goes to the warn handler, the run then issues the count
  of the garbage collector and calls the unit's function, and no continuation of the
  caller has been entered. The machine the run leaves has caching enabled again.
\<close>

lemma lookup_failure_falls_back:
  assumes "cache (exec xs now m) = Some cfg" and "truthy err"
  shows "(\<exists>c. run [Respond 0 (RHash err hv)] (exec xs now m) = Some c \<and>
            events c = [CalculateHash, Warn err,
                        Issue (c_model cfg) (Count (gc_criteria cfg None)), the_call c] \<and>
            (\<forall>ev \<in> set (events c). \<not> reaches_caller ev)) \<and>
         (\<not> truthy herr \<longrightarrow>
           (\<exists>c. run [Respond 0 (RHash herr hv), Respond 0 (RFind err cached)] (exec xs now m) = Some c \<and>
              events c = [CalculateHash,
                          Issue (c_model cfg)
                            (Find (buildFindCriteria
                               \<lparr>opt_hash = hv, opt_expirationDate = c_expirationDate cfg\<rparr>)),
                          Warn err,
                          Issue (c_model cfg) (Count (gc_criteria cfg hv)), the_call c] \<and>
              (\<forall>ev \<in> set (events c). \<not> reaches_caller ev))) \<and>
         cache (exec xs' now' (self (exec xs now m))) \<noteq> None"
proof -
  let ?start = "exec xs now m"
  have a: "\<exists>c. run [Respond 0 (RHash err hv)] ?start = Some c \<and>
            events c = [CalculateHash, Warn err,
                        Issue (c_model cfg) (Count (gc_criteria cfg None)), the_call c] \<and>
            (\<forall>ev \<in> set (events c). \<not> reaches_caller ev)"
    using hash_failed[OF assms, of hv] by (simp add: the_call_def)
  have b: "\<exists>c. run [Respond 0 (RHash herr hv), Respond 0 (RFind err cached)] ?start = Some c \<and>
              events c = [CalculateHash,
                          Issue (c_model cfg)
                            (Find (buildFindCriteria
                               \<lparr>opt_hash = hv, opt_expirationDate = c_expirationDate cfg\<rparr>)),
                          Warn err,
                          Issue (c_model cfg) (Count (gc_criteria cfg hv)), the_call c] \<and>
              (\<forall>ev \<in> set (events c). \<not> reaches_caller ev)"
    if "\<not> truthy herr"
  proof -
    have s1: "step (Respond 0 (RHash herr hv)) ?start = Some (looking_up ?start cfg hv)"
      using assms(1) that by (rule hash_derived)
    from assms(2) have "truthy err \<or> cached = [] \<or> data (hd cached) = JUndefined" by simp
    from lookup_missed[OF this, of ?start cfg hv] s1 assms(2) show ?thesis
      by (simp add: the_call_def)
  qed
  have c: "cache (exec xs' now' (self ?start)) \<noteq> None"
    using assms(1) by (simp add: next_invocation)
  from a b c show ?thesis by blast
qed

lemma lookup_failure_falls_back_example:
  "cache (exec None 5000 demo_machine) = Some demo_cfg \<and>
   truthy (JStr ''store is down'') \<and>
   (\<exists>c. run [Respond 0 (RHash (JStr ''store is down'') None)] (exec None 5000 demo_machine) = Some c \<and>
        events c = [CalculateHash, Warn (JStr ''store is down''),
                    Issue (c_model demo_cfg) (Count (gc_criteria demo_cfg None)), the_call c]) \<and>
   (\<exists>c. run [Respond 0 (RHash JNull (Some ''h'')), Respond 0 (RFind (JStr ''store is down'') [])]
          (exec None 5000 demo_machine) = Some c \<and>
        events c = [CalculateHash,
                    Issue (c_model demo_cfg)
                      (Find (buildFindCriteria
                         \<lparr>opt_hash = Some ''h'', opt_expirationDate = c_expirationDate demo_cfg\<rparr>)),
                    Warn (JStr ''store is down''),
                    Issue (c_model demo_cfg) (Count (gc_criteria demo_cfg (Some ''h''))), the_call c]) \<and>
   cache (exec None 6000 (self (exec None 5000 demo_machine))) \<noteq> None"
proof -
  have h1: "truthy (JStr ''store is down'')" by simp
  have h2: "\<not> truthy JNull" by simp
  note t1 = lookup_failure_falls_back[OF demo_cache h1, of None JNull "[]" None 6000]
  note t2 = lookup_failure_falls_back[OF demo_cache h1, of "Some ''h''" JNull "[]" None 6000]
  from t1 t2 h1 h2 demo_cache show ?thesis by blast
qed

section \<open>The claims\<close>

text \<open>
  C7. The lookup query built by \<open>buildFindCriteria\<close> filters on the hash and on
  \<open>createdAt\<close> strictly greater than the cutoff, sorts by \<open>createdAt\<close> descending and has
  limit 1. An entry created exactly at the cutoff does not match and is never returned by
  the store, so it cannot produce a hit; an entry of that hash created after the cutoff
  matches, and the store then returns exactly one entry, a newest fresh one. The query a
  run issues once the hash is derived is this one, with cutoff \<open>now - ttl\<close>.
\<close>

theorem lookup_freshness_boundary:
  "buildFindCriteria \<lparr>opt_hash = Some h, opt_expirationDate = cutoff\<rparr> =
     \<lparr> where_createdAt = (GreaterThan, cutoff), where_hash = Some h,
       sort_by = Some CreatedAtDesc, limit = Some 1, skip = None \<rparr> \<and>
   (matches (buildFindCriteria \<lparr>opt_hash = Some h, opt_expirationDate = cutoff\<rparr>) e
      \<longleftrightarrow> hash e = h \<and> cutoff < createdAt e) \<and>
   (createdAt e = cutoff \<longrightarrow>
      \<not> matches (buildFindCriteria \<lparr>opt_hash = Some h, opt_expirationDate = cutoff\<rparr>) e \<and>
      e \<notin> set (store_find (buildFindCriteria \<lparr>opt_hash = Some h, opt_expirationDate = cutoff\<rparr>) es)) \<and>
   (hash e = h \<and> cutoff < createdAt e \<and> e \<in> set es \<longrightarrow>
      (\<exists>n. store_find (buildFindCriteria \<lparr>opt_hash = Some h, opt_expirationDate = cutoff\<rparr>) es = [n]
           \<and> n \<in> set es \<and> hash n = h \<and> cutoff < createdAt n \<and> createdAt e \<le> createdAt n)) \<and>
   (cache (exec xs now m) = Some cfg \<and> \<not> truthy herr \<longrightarrow>
      c_expirationDate cfg = now - c_ttl cfg \<and>
      (\<exists>c. run [Respond 0 (RHash herr (Some h))] (exec xs now m) = Some c \<and>
           events c = [CalculateHash,
             Issue (c_model cfg)
               (Find (buildFindCriteria
                  \<lparr>opt_hash = Some h, opt_expirationDate = c_expirationDate cfg\<rparr>))]))"
proof -
  let ?q = "buildFindCriteria \<lparr>opt_hash = Some h, opt_expirationDate = cutoff\<rparr>"
  have sub: "set (store_find ?q es) \<subseteq> {x \<in> set es. hash x = h \<and> cutoff < createdAt x}"
    unfolding store_find_lookup by (auto dest!: in_set_takeD)
  have a: "?q = \<lparr> where_createdAt = (GreaterThan, cutoff), where_hash = Some h,
       sort_by = Some CreatedAtDesc, limit = Some 1, skip = None \<rparr>"
    by (simp add: buildFindCriteria_def)
  have b: "matches ?q e \<longleftrightarrow> hash e = h \<and> cutoff < createdAt e"
    by (rule matches_find)
  have c: "createdAt e = cutoff \<longrightarrow> \<not> matches ?q e \<and> e \<notin> set (store_find ?q es)"
    using b sub by auto
  have d: "hash e = h \<and> cutoff < createdAt e \<and> e \<in> set es \<longrightarrow>
      (\<exists>n. store_find ?q es = [n] \<and> n \<in> set es \<and> hash n = h \<and> cutoff < createdAt n
           \<and> createdAt e \<le> createdAt n)"
  proof
    assume "hash e = h \<and> cutoff < createdAt e \<and> e \<in> set es"
    then have "e \<in> set (filter (\<lambda>e. hash e = h \<and> cutoff < createdAt e) es)" by simp
    from take1_newest[OF this] show "\<exists>n. store_find ?q es = [n] \<and> n \<in> set es \<and> hash n = h
        \<and> cutoff < createdAt n \<and> createdAt e \<le> createdAt n"
      unfolding store_find_lookup by auto
  qed
  have e: "cache (exec xs now m) = Some cfg \<and> \<not> truthy herr \<longrightarrow>
      c_expirationDate cfg = now - c_ttl cfg \<and>
      (\<exists>c. run [Respond 0 (RHash herr (Some h))] (exec xs now m) = Some c \<and>
           events c = [CalculateHash,
             Issue (c_model cfg)
               (Find (buildFindCriteria
                  \<lparr>opt_hash = Some h, opt_expirationDate = c_expirationDate cfg\<rparr>))])"
  proof
    assume h: "cache (exec xs now m) = Some cfg \<and> \<not> truthy herr"
    then have "step (Respond 0 (RHash herr (Some h))) (exec xs now m)
        = Some (looking_up (exec xs now m) cfg (Some h))"
      by (intro hash_derived) simp_all
    then have "run [Respond 0 (RHash herr (Some h))] (exec xs now m)
        = Some (looking_up (exec xs now m) cfg (Some h))" by simp
    with h exec_cutoff[of xs now m cfg] show "c_expirationDate cfg = now - c_ttl cfg \<and>
      (\<exists>c. run [Respond 0 (RHash herr (Some h))] (exec xs now m) = Some c \<and>
           events c = [CalculateHash,
             Issue (c_model cfg)
               (Find (buildFindCriteria
                  \<lparr>opt_hash = Some h, opt_expirationDate = c_expirationDate cfg\<rparr>))])"
      by (simp add: looking_up_def)
  qed
  from a b c d e show ?thesis by blast
qed

theorem lookup_freshness_boundary_witness:
  "\<not> matches (buildFindCriteria \<lparr>opt_hash = Some ''h'', opt_expirationDate = 4000\<rparr>) (demo_entry 4000) \<and>
   demo_entry 4000 \<notin> set (store_find (buildFindCriteria \<lparr>opt_hash = Some ''h'', opt_expirationDate = 4000\<rparr>)
       [demo_entry 4000, demo_entry 4001]) \<and>
   (\<exists>n. store_find (buildFindCriteria \<lparr>opt_hash = Some ''h'', opt_expirationDate = 4000\<rparr>)
       [demo_entry 4000, demo_entry 4001] = [n] \<and> createdAt (demo_entry 4001) \<le> createdAt n) \<and>
   (\<exists>c. run [Respond 0 (RHash JNull (Some ''h''))] (exec None 5000 demo_machine) = Some c \<and>
        events c = [CalculateHash,
          Issue (c_model demo_cfg)
            (Find (buildFindCriteria
               \<lparr>opt_hash = Some ''h'', opt_expirationDate = c_expirationDate demo_cfg\<rparr>))])"
proof -
  have h1: "createdAt (demo_entry 4000) = 4000" by (simp add: demo_entry_def)
  have h2: "hash (demo_entry 4001) = ''h'' \<and> 4000 < createdAt (demo_entry 4001) \<and>
      demo_entry 4001 \<in> set [demo_entry 4000, demo_entry 4001]" by (simp add: demo_entry_def)
  have h3: "cache (exec None 5000 demo_machine) = Some demo_cfg \<and> \<not> truthy JNull"
    by (simp add: demo_cache)
  note t1 = lookup_freshness_boundary[of "''h''" 4000 "demo_entry 4000"
      "[demo_entry 4000, demo_entry 4001]" None 5000 demo_machine demo_cfg JNull]
  note t2 = lookup_freshness_boundary[of "''h''" 4000 "demo_entry 4001"
      "[demo_entry 4000, demo_entry 4001]" None 5000 demo_machine demo_cfg JNull]
  from t1 h1 h3 t2 h2 show ?thesis by blast
qed

text \<open>
  C1. Caching is enabled and the hash is derived. If the lookup returns without error an
  entry whose \<open>data\<close> is defined (the query has limit 1, so it returns at most one),
  the run consists of the hash derivation, the lookup and the call of the success
  continuation of the configured exits with that entry's \<open>data\<close>, the very value the
  store returned. The unit's function is not called, and no further step of the run is
  possible, so it is never called. Every run begins in this order: the first callback to
  be called is that of the hash derivation, and after a derived hash that of the lookup.
\<close>

theorem cache_hit_skips_fn:
  assumes "cache (exec xs now m) = Some cfg"
    and "\<not> truthy herr" and "\<not> truthy ferr"
    and "length cached \<le> 1" and "e \<in> set cached" and "data e \<noteq> JUndefined"
  shows "(\<exists>c. run [Respond 0 (RHash herr (Some h)), Respond 0 (RFind ferr cached)] (exec xs now m) = Some c \<and>
      events c =
        [CalculateHash,
         Issue (c_model cfg)
           (Find (buildFindCriteria \<lparr>opt_hash = Some h, opt_expirationDate = c_expirationDate cfg\<rparr>)),
         invoke (configuredExits (self (exec xs now m))) ''success'' [data e]] \<and>
      (\<forall>ev \<in> set (events c). \<not> is_RunFn ev) \<and>
      (\<forall>a. step a c = None) \<and>
      (\<forall>acts. acts \<noteq> [] \<longrightarrow>
         run ([Respond 0 (RHash herr (Some h)), Respond 0 (RFind ferr cached)] @ acts) (exec xs now m) = None)) \<and>
     (\<forall>a acts c. run (a # acts) (exec xs now m) = Some c \<longrightarrow>
        (\<exists>e hv. a = Respond 0 (RHash e hv))) \<and>
     (\<forall>e hv a acts c.
        \<not> truthy e \<and> run (Respond 0 (RHash e hv) # a # acts) (exec xs now m) = Some c \<longrightarrow>
        (\<exists>e' cached. a = Respond 0 (RFind e' cached)))"
proof -
  let ?start = "exec xs now m"
  let ?l = "looking_up ?start cfg (Some h)"
  let ?c = "?l\<lparr> pending := [],
      events := events ?l @ [switchback_call (configuredExits (self ?start)) JNull (data e)] \<rparr>"
  from assms(4,5) have cached: "cached = [e]"
    by (cases cached) auto
  have s1: "step (Respond 0 (RHash herr (Some h))) ?start = Some ?l"
    using assms(1,2) by (rule hash_derived)
  have s2: "step (Respond 0 (RFind ferr cached)) ?l = Some ?c"
    unfolding cached using assms(3,6) by (rule lookup_hit)
  have r: "run [Respond 0 (RHash herr (Some h)), Respond 0 (RFind ferr cached)] ?start = Some ?c"
    using s1 s2 by simp
  have ev: "events ?c =
        [CalculateHash,
         Issue (c_model cfg)
           (Find (buildFindCriteria \<lparr>opt_hash = Some h, opt_expirationDate = c_expirationDate cfg\<rparr>)),
         invoke (configuredExits (self ?start)) ''success'' [data e]]"
    by (simp add: looking_up_def switchback_call_def)
  have nofn: "\<forall>ev \<in> set (events ?c). \<not> is_RunFn ev"
    unfolding ev by simp
  have fin: "step a ?c = None" for a
    by (rule served_is_final) (simp_all add: looking_up_def)
  have stuck: "run ([Respond 0 (RHash herr (Some h)), Respond 0 (RFind ferr cached)] @ acts) ?start = None"
    if "acts \<noteq> []" for acts
    using s1 s2 run_stuck[of ?c acts, OF fin that] by simp
  from r ev nofn fin stuck have "\<exists>c. run [Respond 0 (RHash herr (Some h)), Respond 0 (RFind ferr cached)] ?start = Some c \<and>
      events c =
        [CalculateHash,
         Issue (c_model cfg)
           (Find (buildFindCriteria \<lparr>opt_hash = Some h, opt_expirationDate = c_expirationDate cfg\<rparr>)),
         invoke (configuredExits (self ?start)) ''success'' [data e]] \<and>
      (\<forall>ev \<in> set (events c). \<not> is_RunFn ev) \<and>
      (\<forall>a. step a c = None) \<and>
      (\<forall>acts. acts \<noteq> [] \<longrightarrow>
         run ([Respond 0 (RHash herr (Some h)), Respond 0 (RFind ferr cached)] @ acts) ?start = None)"
    by blast
  with lookup_is_forced[OF assms(1)] show ?thesis by blast
qed

theorem cache_hit_skips_fn_witness:
  "cache (exec None 5000 demo_machine) = Some demo_cfg \<and>
   data (demo_entry 4500) \<noteq> JUndefined \<and>
   invoke (configuredExits (self (exec None 5000 demo_machine))) ''success'' [data (demo_entry 4500)]
     = CallExit (Handler 0) [JObj 9] \<and>
   (\<exists>c. run [Respond 0 (RHash JNull (Some ''h'')), Respond 0 (RFind JNull [demo_entry 4500])]
          (exec None 5000 demo_machine) = Some c \<and>
        events c =
          [CalculateHash,
           Issue (c_model demo_cfg)
             (Find (buildFindCriteria
                \<lparr>opt_hash = Some ''h'', opt_expirationDate = c_expirationDate demo_cfg\<rparr>)),
           invoke (configuredExits (self (exec None 5000 demo_machine))) ''success''
             [data (demo_entry 4500)]] \<and>
        (\<forall>ev \<in> set (events c). \<not> is_RunFn ev) \<and>
        (\<forall>a. step a c = None))"
proof -
  have h1: "\<not> truthy JNull" by simp
  have h2: "length [demo_entry 4500] \<le> 1" by simp
  have h3: "demo_entry 4500 \<in> set [demo_entry 4500]" by simp
  have h4: "data (demo_entry 4500) \<noteq> JUndefined" by (simp add: demo_entry_def)
  have h5: "invoke (configuredExits (self (exec None 5000 demo_machine))) ''success''
      [data (demo_entry 4500)] = CallExit (Handler 0) [JObj 9]"
    by (simp add: demo_exits invoke_def demo_entry_def)
  from cache_hit_skips_fn[OF demo_cache h1 h1 h2 h3 h4, of "''h''"] demo_cache h4 h5
  show ?thesis by blast
qed

text \<open>
  C2. In every run with caching enabled, a derived (non-empty) hash \<open>h\<close> and the function
  started: when the function calls the configured cacheable exit with a result \<open>d\<close>, the
  run issues exactly one \<open>create\<close> with hash \<open>h\<close> and data \<open>d\<close> and waits for it. Whatever
  error value the store answers with, the original continuation of that exit is then
  called with \<open>d\<close>; a truthy error only adds a warning before the call.
\<close>

theorem cacheable_exit_writes_then_forwards:
  assumes "run acts (exec xs now m) = Some c"
    and "cache c = Some cfg"
    and "run_hash c = Some h" and "h \<noteq> []"
    and "given_exits c = Some g"
    and "configuredExits (self c) (c_exit cfg) = Some k"
  shows "\<exists>c1. step (Traverse (c_exit cfg) (d # others)) c = Some c1 \<and>
      events c1 = events c @ [Issue (c_model cfg) (Create h d)] \<and>
      pending c1 = pending c @ [PCreate k d] \<and>
      (\<forall>err. \<exists>c2. step (Respond (length (pending c)) (RCreate err)) c1 = Some c2 \<and>
         events c2 = events c @ [Issue (c_model cfg) (Create h d)] @
                     (if truthy err then [Warn err] else []) @ [CallExit k [d]] \<and>
         pending c2 = pending c) \<and>
      (\<forall>c' i err. i < length (pending c') \<and> pending c' ! i = PCreate k d \<longrightarrow>
         (\<exists>c2. step (Respond i (RCreate err)) c' = Some c2 \<and>
            events c2 = events c' @ (if truthy err then [Warn err] else []) @ [CallExit k [d]]))"
proof -
  have g: "g = interceptedExits (Some cfg) (Some h) (configuredExits (self c))"
    using running_exits[OF assms(1,5)] assms(2,3) by simp
  have gx: "g (c_exit cfg) = Some (Intercepted (c_model cfg) h k)"
    unfolding g using assms(4,6) by (rule intercepted_lookup)
  let ?c1 = "c\<lparr> events := events c @ [Issue (c_model cfg) (Create h d)],
                 pending := pending c @ [PCreate k d] \<rparr>"
  have s: "step (Traverse (c_exit cfg) (d # others)) c = Some ?c1"
    using assms(5) gx by (simp add: call_exit_def)
  have a: "\<exists>c2. step (Respond (length (pending c)) (RCreate err)) ?c1 = Some c2 \<and>
         events c2 = events c @ [Issue (c_model cfg) (Create h d)] @
                     (if truthy err then [Warn err] else []) @ [CallExit k [d]] \<and>
         pending c2 = pending c" for err
    by (simp add: create_cb_def Let_def)
  have b: "\<exists>c2. step (Respond i (RCreate err)) c' = Some c2 \<and>
            events c2 = events c' @ (if truthy err then [Warn err] else []) @ [CallExit k [d]]"
    if "i < length (pending c') \<and> pending c' ! i = PCreate k d" for c' i err
    using create_answered[of i c' k d err] that by blast
  from s a b show ?thesis by auto
qed

theorem cacheable_exit_writes_then_forwards_witness:
  "\<exists>c. run [Respond 0 (RHash JNull (Some ''h'')), Respond 0 (RFind JNull [])]
         (exec None 5000 demo_machine) = Some c \<and>
       cache c = Some demo_cfg \<and> run_hash c = Some ''h'' \<and> pending c = [PCount] \<and>
       configuredExits (self c) (c_exit demo_cfg) = Some (Handler 0) \<and>
       (\<exists>c1. step (Traverse (c_exit demo_cfg) [JObj 9]) c = Some c1 \<and>
          events c1 = events c @ [Issue (c_model demo_cfg) (Create ''h'' (JObj 9))] \<and>
          pending c1 = pending c @ [PCreate (Handler 0) (JObj 9)] \<and>
          (\<exists>c2. step (Respond (length (pending c)) (RCreate (JStr ''disk full''))) c1 = Some c2 \<and>
             events c2 = events c @ [Issue (c_model demo_cfg) (Create ''h'' (JObj 9))] @
                 (if truthy (JStr ''disk full'') then [Warn (JStr ''disk full'')] else []) @
                 [CallExit (Handler 0) [JObj 9]]) \<and>
          (\<exists>c2. step (Respond (length (pending c)) (RCreate JNull)) c1 = Some c2 \<and>
             events c2 = events c @ [Issue (c_model demo_cfg) (Create ''h'' (JObj 9))] @
                 (if truthy JNull then [Warn JNull] else []) @
                 [CallExit (Handler 0) [JObj 9]]))"
proof -
  from demo_missed obtain c where
    c: "run [Respond 0 (RHash JNull (Some ''h'')), Respond 0 (RFind JNull [])]
         (exec None 5000 demo_machine) = Some c"
      "cache c = Some demo_cfg" "run_hash c = Some ''h''" "pending c = [PCount]"
      "given_exits c = Some (interceptedExits (Some demo_cfg) (Some ''h'')
                         [''success'' \<mapsto> Handler 0, ''error'' \<mapsto> Handler 1])"
      "configuredExits (self c) = [''success'' \<mapsto> Handler 0, ''error'' \<mapsto> Handler 1]"
    by blast
  have h: "''h'' \<noteq> []" by simp
  have k: "configuredExits (self c) (c_exit demo_cfg) = Some (Handler 0)"
    by (simp add: c(6) demo_cfg_def)
  from cacheable_exit_writes_then_forwards[OF c(1,2,3) h c(5) k, of "JObj 9" "[]"] c k
  show ?thesis by blast
qed

text \<open>
  C3. Caching is enabled, and the hash derivation or the lookup reports an error. The
  settings are accepted as soon as the model object has a \<open>find\<close> and a \<open>create\<close>
  (lines 53 to 59), and the fallback of lines 156 to 216 calls \<open>_cache.model.count\<close>
  (line 177) before the unit's function (line 255). On the configured machine, run
  against a model object with \<open>find\<close> and \<open>create\<close> only: the settings are valid and caching
  is enabled; when the lookup fails, the error goes to the warn handler, the call of
  \<open>count\<close> then throws, and the run is over with the function never called and no exit
  set given out; the same when the hash derivation fails. So on this store a failing
  lookup is fatal and the execution does not fall back to the function.
\<close>

theorem fallback_lost_without_count:
  "valid_cache (cacheSettings (prepare None demo_machine)) \<and>
   cache (exec_on bare_model None 5000 demo_machine) = Some demo_cfg \<and>
   (\<exists>c. run [Respond 0 (RHash JNull (Some ''h'')), Respond 0 (RFind (JStr ''store is down'') [])]
          (exec_on bare_model None 5000 demo_machine) = Some c \<and>
        events c = [CalculateHash,
                    Issue 3 (Find (buildFindCriteria
                                     \<lparr>opt_hash = Some ''h'', opt_expirationDate = 4000\<rparr>)),
                    Warn (JStr ''store is down''),
                    TypeError ''count''] \<and>
        filter is_RunFn (events c) = [] \<and>
        pending c = [] \<and> given_exits c = None \<and>
        (\<forall>a. step a c = None)) \<and>
   (\<exists>c. run [Respond 0 (RHash (JStr ''cannot hash'') None)]
          (exec_on bare_model None 5000 demo_machine) = Some c \<and>
        events c = [CalculateHash, Warn (JStr ''cannot hash''), TypeError ''count''] \<and>
        filter is_RunFn (events c) = [] \<and>
        pending c = [] \<and> given_exits c = None \<and>
        (\<forall>a. step a c = None))"
proof -
  have v: "valid_cache (cacheSettings (prepare None demo_machine))"
    by (simp add: run_defs demo_defs)
  have e: "cache (exec_on bare_model None 5000 demo_machine) = Some demo_cfg"
    by (simp add: run_defs demo_defs)
  have "\<exists>c. run [Respond 0 (RHash JNull (Some ''h'')), Respond 0 (RFind (JStr ''store is down'') [])]
          (exec_on bare_model None 5000 demo_machine) = Some c \<and>
        events c = [CalculateHash,
                    Issue 3 (Find (buildFindCriteria
                                     \<lparr>opt_hash = Some ''h'', opt_expirationDate = 4000\<rparr>)),
                    Warn (JStr ''store is down''),
                    TypeError ''count''] \<and>
        pending c = [] \<and> given_exits c = None"
    by (simp add: run_defs demo_defs bare_model_def)
  then obtain c where
    c: "run [Respond 0 (RHash JNull (Some ''h'')), Respond 0 (RFind (JStr ''store is down'') [])]
          (exec_on bare_model None 5000 demo_machine) = Some c"
       "events c = [CalculateHash,
                    Issue 3 (Find (buildFindCriteria
                                     \<lparr>opt_hash = Some ''h'', opt_expirationDate = 4000\<rparr>)),
                    Warn (JStr ''store is down''),
                    TypeError ''count'']"
       "pending c = []" "given_exits c = None"
    by blast
  have c5: "filter is_RunFn (events c) = []" by (simp add: c(2))
  have c6: "\<forall>a. step a c = None" using served_is_final[OF c(3,4)] by simp
  have "\<exists>d. run [Respond 0 (RHash (JStr ''cannot hash'') None)]
          (exec_on bare_model None 5000 demo_machine) = Some d \<and>
        events d = [CalculateHash, Warn (JStr ''cannot hash''), TypeError ''count''] \<and>
        pending d = [] \<and> given_exits d = None"
    by (simp add: run_defs demo_defs bare_model_def)
  then obtain d where
    d: "run [Respond 0 (RHash (JStr ''cannot hash'') None)]
          (exec_on bare_model None 5000 demo_machine) = Some d"
       "events d = [CalculateHash, Warn (JStr ''cannot hash''), TypeError ''count'']"
       "pending d = []" "given_exits d = None"
    by blast
  have d5: "filter is_RunFn (events d) = []" by (simp add: d(2))
  have d6: "\<forall>a. step a d = None" using served_is_final[OF d(3,4)] by simp
  from v e c c5 c6 d d5 d6 show ?thesis by blast
qed

text \<open>
  C10. On a cache hit the data is delivered by calling the switchback over the configured
  exits with \<open>(null, data)\<close>, which is the call of the \<open>success\<close> continuation, whatever
  exit the settings name as the cacheable one. So a value written to the cache on the
  traversal of the cacheable exit \<open>c_exit cfg\<close> (any name) is, on a hit of a later
  invocation of the same machine, delivered through \<open>success\<close>.
\<close>

theorem hit_replays_through_success:
  assumes "cache (exec xs now m) = Some cfg"
    and "\<not> truthy herr" and "\<not> truthy ferr" and "d \<noteq> JUndefined"
  shows "(\<exists>c. run [Respond 0 (RHash herr hv), Respond 0 (RFind ferr (\<lparr>hash = eh, data = d, createdAt = t\<rparr> # rest))]
              (exec xs now m) = Some c \<and>
            last (events c) = switchback_call (configuredExits (self c)) JNull d \<and>
            last (events c) = invoke (configuredExits (self c)) ''success'' [d] \<and>
            (\<forall>ks. configuredExits (self c) ''success'' = Some ks \<longrightarrow>
                last (events c) = CallExit ks [d])) \<and>
         (h \<noteq> [] \<and> configuredExits (self (exec xs now m)) (c_exit cfg) = Some kx \<longrightarrow>
            (\<exists>c1. run [Respond 0 (RHash herr (Some h)), Respond 0 (RFind ferr []),
                       Traverse (c_exit cfg) [d]] (exec xs now m) = Some c1 \<and>
                last (events c1) = Issue (c_model cfg) (Create h d) \<and>
                (\<exists>c2. run [Respond 0 (RHash herr (Some h)),
                           Respond 0 (RFind ferr [\<lparr>hash = h, data = d, createdAt = t\<rparr>])]
                          (exec xs' now' (self c1)) = Some c2 \<and>
                    configuredExits (self c2) = configuredExits (prepare xs' (self (exec xs now m))) \<and>
                    last (events c2) = invoke (configuredExits (self c2)) ''success'' [d])))"
proof -
  let ?start = "exec xs now m"
  have hit: "\<exists>c. run [Respond 0 (RHash herr hv), Respond 0 (RFind ferr (\<lparr>hash = eh, data = d, createdAt = t\<rparr> # rest))]
              (exec xs now m) = Some c \<and> self c = self (exec xs now m) \<and>
            last (events c) = switchback_call (configuredExits (self c)) JNull d \<and>
            last (events c) = invoke (configuredExits (self c)) ''success'' [d]"
    if "cache (exec xs now m) = Some cfg" for xs now m cfg hv eh rest
  proof -
    have s1: "step (Respond 0 (RHash herr hv)) (exec xs now m) = Some (looking_up (exec xs now m) cfg hv)"
      using that assms(2) by (rule hash_derived)
    have s2: "step (Respond 0 (RFind ferr (\<lparr>hash = eh, data = d, createdAt = t\<rparr> # rest)))
        (looking_up (exec xs now m) cfg hv) =
      Some ((looking_up (exec xs now m) cfg hv)
            \<lparr> pending := [],
              events := events (looking_up (exec xs now m) cfg hv) @
                [switchback_call (configuredExits (self (exec xs now m))) JNull
                   (data \<lparr>hash = eh, data = d, createdAt = t\<rparr>)] \<rparr>)"
      using assms(3,4) by (intro lookup_hit) simp_all
    from s1 s2 show ?thesis
      by (simp add: looking_up_def switchback_call_def)
  qed
  from hit[OF assms(1), of hv eh rest] obtain c where
    c: "run [Respond 0 (RHash herr hv), Respond 0 (RFind ferr (\<lparr>hash = eh, data = d, createdAt = t\<rparr> # rest))]
              ?start = Some c"
      "last (events c) = switchback_call (configuredExits (self c)) JNull d"
      "last (events c) = invoke (configuredExits (self c)) ''success'' [d]" by blast
  have ks: "\<forall>ks. configuredExits (self c) ''success'' = Some ks \<longrightarrow> last (events c) = CallExit ks [d]"
    using c(3) by (simp add: invoke_def)
  have replay: "\<exists>c1. run [Respond 0 (RHash herr (Some h)), Respond 0 (RFind ferr []),
                       Traverse (c_exit cfg) [d]] ?start = Some c1 \<and>
                last (events c1) = Issue (c_model cfg) (Create h d) \<and>
                (\<exists>c2. run [Respond 0 (RHash herr (Some h)),
                           Respond 0 (RFind ferr [\<lparr>hash = h, data = d, createdAt = t\<rparr>])]
                          (exec xs' now' (self c1)) = Some c2 \<and>
                    configuredExits (self c2) = configuredExits (prepare xs' (self (exec xs now m))) \<and>
                    last (events c2) = invoke (configuredExits (self c2)) ''success'' [d])"
    if h: "h \<noteq> []" and kx: "configuredExits (self ?start) (c_exit cfg) = Some kx"
  proof -
    have s1: "step (Respond 0 (RHash herr (Some h))) ?start = Some (looking_up ?start cfg (Some h))"
      using assms(1,2) by (rule hash_derived)
    have "truthy ferr \<or> ([]::entry list) = [] \<or> data (hd []) = JUndefined" by simp
    note s2 = lookup_missed[OF this, of ?start cfg "Some h"]
    have gx: "interceptedExits (Some cfg) (Some h) (configuredExits (self ?start)) (c_exit cfg)
        = Some (Intercepted (c_model cfg) h kx)"
      using h kx by (rule intercepted_lookup)
    from s1 s2 gx assms(3) obtain c1 where
      c1: "run [Respond 0 (RHash herr (Some h)), Respond 0 (RFind ferr []),
                       Traverse (c_exit cfg) [d]] ?start = Some c1"
        and l1: "last (events c1) = Issue (c_model cfg) (Create h d)"
      by (simp add: call_exit_def)
    from run_frame[OF c1] have self1: "self c1 = self ?start" by simp
    have "cache (exec xs' now' (self ?start)) \<noteq> None"
      using assms(1) by (simp add: next_invocation)
    then obtain cfg' where cfg': "cache (exec xs' now' (self c1)) = Some cfg'"
      using self1 by auto
    from hit[OF cfg', of "Some h" h "[]"] obtain c2 where
      c2: "run [Respond 0 (RHash herr (Some h)),
                Respond 0 (RFind ferr [\<lparr>hash = h, data = d, createdAt = t\<rparr>])]
             (exec xs' now' (self c1)) = Some c2"
        "self c2 = self (exec xs' now' (self c1))"
        "last (events c2) = invoke (configuredExits (self c2)) ''success'' [d]" by blast
    have "configuredExits (self c2) = configuredExits (prepare xs' (self ?start))"
      using c2(2) self1 by (simp add: self_exec_exits)
    with c1 l1 c2 show ?thesis by auto
  qed
  from c ks replay show ?thesis by blast
qed

theorem hit_replays_through_success_witness:
  "cache (exec None 5000 custom_machine) = Some custom_cfg \<and> c_exit custom_cfg = ''notFound'' \<and>
   configuredExits (self (exec None 5000 custom_machine)) (c_exit custom_cfg) = Some (Handler 2) \<and>
   invoke (configuredExits (prepare None (self (exec None 5000 custom_machine)))) ''success'' [JObj 9]
     = CallExit (Handler 0) [JObj 9] \<and>
   (\<exists>c1. run [Respond 0 (RHash JNull (Some ''h'')), Respond 0 (RFind JNull []),
              Traverse (c_exit custom_cfg) [JObj 9]] (exec None 5000 custom_machine) = Some c1 \<and>
      last (events c1) = Issue (c_model custom_cfg) (Create ''h'' (JObj 9)) \<and>
      (\<exists>c2. run [Respond 0 (RHash JNull (Some ''h'')),
                 Respond 0 (RFind JNull [\<lparr>hash = ''h'', data = JObj 9, createdAt = 5500\<rparr>])]
                (exec None 6000 (self c1)) = Some c2 \<and>
          configuredExits (self c2) =
            configuredExits (prepare None (self (exec None 5000 custom_machine))) \<and>
          last (events c2) = invoke (configuredExits (self c2)) ''success'' [JObj 9]))"
proof -
  have h1: "\<not> truthy JNull" by simp
  have h2: "JObj 9 \<noteq> JUndefined" by simp
  have h3: "c_exit custom_cfg = ''notFound''" by (simp add: custom_cfg_def)
  have h4: "configuredExits (self (exec None 5000 custom_machine)) (c_exit custom_cfg) = Some (Handler 2)"
    by (simp add: custom_exits h3)
  have h5: "invoke (configuredExits (prepare None (self (exec None 5000 custom_machine)))) ''success'' [JObj 9]
     = CallExit (Handler 0) [JObj 9]"
    by (simp add: custom_exits invoke_def)
  have h6: "''h'' \<noteq> []" by simp
  from hit_replays_through_success[OF custom_cache h1 h1 h2,
      of None "''h''" 5500 "[]" "''h''" "Handler 2" None 6000] h3 h4 h5 h6 custom_cache
  show ?thesis by blast
qed

text \<open>
  C5. In every run in which the count of the garbage collector is pending for hash \<open>h\<close>,
  that count was issued for the entries of \<open>h\<close> with \<open>createdAt\<close> at most the cutoff. Let
  the store hold \<open>n\<close> such entries and answer the count with \<open>n\<close>, and let \<open>k\<close> be
  \<open>maxOldEntriesBuffer\<close>. If \<open>n > k\<close> the run issues one destroy, restricted to \<open>h\<close> and
  \<open>createdAt\<close> at most the cutoff, sorted by \<open>createdAt\<close> descending with skip \<open>k\<close>, and no
  other destroy for the rest of the run; on the store that destroy removes exactly
  \<open>n - k\<close> entries, all stale entries of \<open>h\<close> and none newer than a stale entry that stays,
  and \<open>k\<close> stale entries stay. If \<open>n \<le> k\<close> the answer adds no event and the run never issues
  a destroy.
\<close>

theorem gc_retention:
  assumes "run acts (exec xs now m) = Some c"
    and "cache c = Some cfg" and "run_hash c = Some h"
    and "i < length (pending c)" and "pending c ! i = PCount"
    and "\<not> truthy err"
    and "n = store_count (gc_criteria cfg (Some h)) es"
    and "k = c_maxOldEntriesBuffer cfg"
  shows "Issue (c_model cfg) (Count (gc_criteria cfg (Some h))) \<in> set (events c) \<and>
     gc_criteria cfg (Some h) =
       \<lparr> where_createdAt = (LessOrEqual, c_expirationDate cfg), where_hash = Some h,
         sort_by = None, limit = None, skip = None \<rparr> \<and>
     n = length (filter (\<lambda>e. hash e = h \<and> createdAt e \<le> c_expirationDate cfg) es) \<and>
     (k < n \<longrightarrow>
        (\<exists>c'. step (Respond i (RCount err (Some n))) c = Some c' \<and>
           events c' = events c @
             [Issue (c_model cfg)
                (Destroy \<lparr> where_createdAt = (LessOrEqual, c_expirationDate cfg),
                           where_hash = Some h, sort_by = Some CreatedAtDesc,
                           limit = None, skip = Some k \<rparr>)] \<and>
           (\<forall>more c''. run more c' = Some c'' \<longrightarrow>
              filter is_destroy_op (events c'') = [Issue (c_model cfg) (Destroy (destroy_criteria cfg (Some h)))])) \<and>
        length (store_destroyed (destroy_criteria cfg (Some h)) es) = n - k \<and>
        store_count (gc_criteria cfg (Some h)) (store_destroy (destroy_criteria cfg (Some h)) es) = k \<and>
        mset (store_destroy (destroy_criteria cfg (Some h)) es) +
          mset (store_destroyed (destroy_criteria cfg (Some h)) es) = mset es \<and>
        (\<forall>v \<in> set (store_destroyed (destroy_criteria cfg (Some h)) es).
           v \<in> set es \<and> hash v = h \<and> createdAt v \<le> c_expirationDate cfg \<and>
           (\<forall>r \<in> set (store_destroy (destroy_criteria cfg (Some h)) es).
              hash r = h \<and> createdAt r \<le> c_expirationDate cfg \<longrightarrow> createdAt v \<le> createdAt r))) \<and>
     (n \<le> k \<longrightarrow>
        (\<exists>c'. step (Respond i (RCount err (Some n))) c = Some c' \<and>
           events c' = events c \<and>
           (\<forall>more c''. run more c' = Some c'' \<longrightarrow> filter is_destroy_op (events c'') = [])))"
proof -
  note cp = count_pending_running[OF assms(1,4,5)]
  let ?d = "c\<lparr>pending := take i (pending c) @ drop (Suc i) (pending c)\<rparr>"
  let ?issue = "Issue (c_model cfg) (Destroy (destroy_criteria cfg (Some h)))"
  from cp assms(2,3) have a: "Issue (c_model cfg) (Count (gc_criteria cfg (Some h))) \<in> set (events c)"
    by (auto simp: running_def)
  have b: "gc_criteria cfg (Some h) =
       \<lparr> where_createdAt = (LessOrEqual, c_expirationDate cfg), where_hash = Some h,
         sort_by = None, limit = None, skip = None \<rparr>"
    by (simp add: gc_criteria_def)
  have n: "n = length (filter (\<lambda>e. hash e = h \<and> createdAt e \<le> c_expirationDate cfg) es)"
    using assms(7) by (simp add: store_count_gc stale_def[abs_def])
  have dc: "destroy_criteria cfg (Some h) =
      \<lparr> where_createdAt = (LessOrEqual, c_expirationDate cfg),
        where_hash = Some h, sort_by = Some CreatedAtDesc, limit = None, skip = Some k \<rparr>"
    by (simp add: destroy_criteria_def assms(8))
  have ge: "given_exits c \<noteq> None" using cp by (auto simp: running_def)
  have full: "extras c = full_model" using cp by (auto simp: running_def)
  have big: "\<exists>c'. step (Respond i (RCount err (Some n))) c = Some c' \<and>
           events c' = events c @ [?issue] \<and>
           (\<forall>more c''. run more c' = Some c'' \<longrightarrow> filter is_destroy_op (events c'') = [?issue])"
    if "k < n"
  proof -
    let ?c' = "?d\<lparr> events := events c @ [?issue], pending := pending ?d @ [PDestroy] \<rparr>"
    have s: "step (Respond i (RCount err (Some n))) c = Some ?c'"
      using assms(2,3,4,5,6,8) that full by (simp add: count_cb_def Let_def)
    have inv': "inv ?c'" using cp s by (blast intro: step_inv)
    have q: "\<forall>p \<in> set (pending ?c'). \<not> is_count_wait p" "given_exits ?c' \<noteq> None"
      using cp ge by auto
    have "filter is_destroy_op (events c'') = [?issue]" if "run more ?c' = Some c''" for more c''
      using run_settled[OF inv' q that] cp by simp
    with s show ?thesis by auto
  qed
  have small: "\<exists>c'. step (Respond i (RCount err (Some n))) c = Some c' \<and>
           events c' = events c \<and>
           (\<forall>more c''. run more c' = Some c'' \<longrightarrow> filter is_destroy_op (events c'') = [])"
    if "n \<le> k"
  proof -
    have s: "step (Respond i (RCount err (Some n))) c = Some ?d"
      using assms(2,3,4,5,6,8) that full by (simp add: count_cb_def Let_def)
    have inv': "inv ?d" using cp s by (blast intro: step_inv)
    have q: "\<forall>p \<in> set (pending ?d). \<not> is_count_wait p" "given_exits ?d \<noteq> None"
      using cp ge by auto
    have "filter is_destroy_op (events c'') = []" if "run more ?d = Some c''" for more c''
      using run_settled[OF inv' q that] cp by simp
    with s show ?thesis by auto
  qed
  note r = retention[where cfg = cfg and h = h and es = es, folded assms(7) assms(8)]
  have st: "length (store_destroyed (destroy_criteria cfg (Some h)) es) = n - k"
    "mset (store_destroy (destroy_criteria cfg (Some h)) es) +
          mset (store_destroyed (destroy_criteria cfg (Some h)) es) = mset es"
    "\<forall>v \<in> set (store_destroyed (destroy_criteria cfg (Some h)) es).
           v \<in> set es \<and> hash v = h \<and> createdAt v \<le> c_expirationDate cfg \<and>
           (\<forall>r \<in> set (store_destroy (destroy_criteria cfg (Some h)) es).
              hash r = h \<and> createdAt r \<le> c_expirationDate cfg \<longrightarrow> createdAt v \<le> createdAt r)"
    using r(1,2,4,5) by (auto simp: stale_def)
  have st3: "store_count (gc_criteria cfg (Some h)) (store_destroy (destroy_criteria cfg (Some h)) es) = k"
    if "k < n" using r(3) that by simp
  from a b n big small st st3 show ?thesis unfolding dc[symmetric] by blast
qed

theorem gc_retention_witness:
  "\<exists>c. run [Respond 0 (RHash JNull (Some ''h'')), Respond 0 (RFind JNull [])]
         (exec None 5000 demo_machine) = Some c \<and>
       cache c = Some demo_cfg \<and> run_hash c = Some ''h'' \<and> pending c ! 0 = PCount \<and>
       c_maxOldEntriesBuffer demo_cfg = 1 \<and>
       store_count (gc_criteria demo_cfg (Some ''h'')) demo_store = 3 \<and>
       store_count (gc_criteria demo_cfg (Some ''h'')) [demo_entry 1000] = 1 \<and>
       (\<exists>c'. step (Respond 0 (RCount JNull (Some 3))) c = Some c' \<and>
          events c' = events c @
            [Issue (c_model demo_cfg)
               (Destroy \<lparr> where_createdAt = (LessOrEqual, c_expirationDate demo_cfg),
                          where_hash = Some ''h'', sort_by = Some CreatedAtDesc,
                          limit = None, skip = Some 1 \<rparr>)]) \<and>
       length (store_destroyed (destroy_criteria demo_cfg (Some ''h'')) demo_store) = 3 - 1 \<and>
       store_destroyed (destroy_criteria demo_cfg (Some ''h'')) demo_store
         = [demo_entry 2000, demo_entry 1000] \<and>
       store_count (gc_criteria demo_cfg (Some ''h''))
         (store_destroy (destroy_criteria demo_cfg (Some ''h'')) demo_store) = 1 \<and>
       (\<exists>c'. step (Respond 0 (RCount JNull (Some 1))) c = Some c' \<and> events c' = events c)"
proof -
  from demo_missed obtain c where
    c: "run [Respond 0 (RHash JNull (Some ''h'')), Respond 0 (RFind JNull [])]
         (exec None 5000 demo_machine) = Some c"
      "cache c = Some demo_cfg" "run_hash c = Some ''h''" "pending c = [PCount]"
    by blast
  have i: "0 < length (pending c)" and p: "pending c ! 0 = PCount" by (simp_all add: c(4))
  have e: "\<not> truthy JNull" by simp
  have k: "1 = c_maxOldEntriesBuffer demo_cfg" by (simp add: demo_cfg_def)
  have n1: "1 = store_count (gc_criteria demo_cfg (Some ''h'')) [demo_entry 1000]"
    by (simp add: store_count_def matches_def gc_criteria_def satisfies_def demo_defs)
  have lt: "(1::nat) < 3" and le: "(1::nat) \<le> 1" by simp_all
  note big = gc_retention[OF c(1,2,3) i p e demo_store_count[symmetric] k]
  note small = gc_retention[OF c(1,2,3) i p e n1 k]
  from big small lt le c p k[symmetric] demo_store_count n1[symmetric] demo_store_destroyed
  show ?thesis by blast
qed

text \<open>
  C8. The cache settings of a run are valid only when they are an object whose \<open>model\<close> is
  an object with \<open>find\<close> and \<open>create\<close> functions (\<open>valid_cache\<close>). When they are not, then in
  this invocation and in every later invocation of the same machine, whatever the
  schedule, the run issues no store operation and no warning: its events are one call of
  the unit's function and calls of the caller's exits, and no callback is ever pending.
\<close>

theorem disabled_cache_runs_fn:
  assumes "\<not> valid_cache (cacheSettings (prepare xs m))"
    and "exec_many ((xs, now, acts) # calls) m = Some cs"
  shows "(valid_cache settings \<longleftrightarrow>
        (\<exists>s st. settings = Some s \<and> model s = Some (ModelObject st True True))) \<and>
     length cs = Suc (length calls) \<and>
     (\<forall>c \<in> set cs.
        (\<forall>ev \<in> set (events c). \<not> is_store_op ev \<and> (is_RunFn ev \<or> is_CallExit ev)) \<and>
        filter is_RunFn (events c) = [the_call c] \<and> pending c = [] \<and> cache c = None)"
proof -
  from assms(2) obtain c cs' where
    r: "run acts (exec xs now m) = Some c" and m': "exec_many calls (self c) = Some cs'"
    and cs: "cs = c # cs'"
    by (auto split: option.splits)
  have off: "cache (exec xs now m) = None" using assms(1) by (simp add: cache_exec_None)
  from disabled_run[OF off r] have q: "no_store_traffic c" and s: "self c = prepare xs m" by simp_all
  have rest: "length cs' = length calls \<and> list_all no_store_traffic cs'"
  proof (rule exec_many_disabled[OF _ _ m'])
    show "\<not> valid_cache (cacheSettings (self c))" using assms(1) s by simp
    show "\<not> truthy v" if "configuredInputs (self c) ''_cache'' = Some v" for v
      using that s by (auto dest: prepare_inputs_consumed)
  qed
  from q rest cs have "length cs = Suc (length calls) \<and>
     (\<forall>c \<in> set cs.
        (\<forall>ev \<in> set (events c). \<not> is_store_op ev \<and> (is_RunFn ev \<or> is_CallExit ev)) \<and>
        filter is_RunFn (events c) = [the_call c] \<and> pending c = [] \<and> cache c = None)"
    by (auto simp: no_store_traffic_def list_all_iff)
  with valid_cache_iff[of settings] show ?thesis by blast
qed

theorem disabled_cache_runs_fn_witness:
  "\<not> valid_cache (cacheSettings (prepare None broken_machine)) \<and>
   (\<exists>cs. exec_many [(None, 5000, [Traverse ''success'' [JNum 1]]), (None, 6000, [])] broken_machine
            = Some cs \<and>
         length cs = Suc (length [(None :: (string \<rightharpoonup> handler) option, 6000 :: int, [] :: action list)]) \<and>
         (\<forall>c \<in> set cs.
            (\<forall>ev \<in> set (events c). \<not> is_store_op ev \<and> (is_RunFn ev \<or> is_CallExit ev)) \<and>
            filter is_RunFn (events c) = [the_call c] \<and> pending c = [] \<and> cache c = None))"
proof -
  from broken_twice obtain cs where
    cs: "exec_many [(None, 5000, [Traverse ''success'' [JNum 1]]), (None, 6000, [])] broken_machine
           = Some cs" by blast
  from disabled_cache_runs_fn[OF broken_invalid cs] broken_invalid cs show ?thesis by blast
qed

text \<open>
  C4. The claim names the machine's resolved dependencies as the third argument. A
  machine whose \<open>_dependencies\<close> is an object and whose \<open>_configuredContexts\<close> was never
  set is called by \<open>exec\<close> with \<open>undefined\<close> as third argument.
\<close>

theorem fn_third_argument_counterexample:
  "map third_argument (events (exec None 5000 plain_machine)) = [Some JUndefined] \<and>
   dependencies plain_machine = JObj 1 \<and>
   configuredContexts plain_machine = JUndefined"
  by (simp add: run_defs plain_machine_def custom_machine_def)

text \<open>
  C4, as amended. In every run of the \<open>exec\<close> of \<open>Machine.prototype.exec.js\<close>, every call of
  the unit's function has \<open>this\<close> bound to \<open>_configuredContexts\<close> and exactly the three
  arguments: the configured inputs (after the reserved input was consumed), the switchback
  over the possibly intercepted exit set, and \<open>_configuredContexts\<close>. The \<open>exec\<close> of
  \<open>Machine.js\<close> calls the function as a method of the machine with the configured inputs, the
  switchback over the configured exits, and \<open>_dependencies\<close>.
\<close>

theorem fn_called_with_contexts:
  "(run acts (exec xs now m) = Some c \<and> ev \<in> set (events c) \<and> is_RunFn ev \<longrightarrow>
      ev = RunFn (fn m) (ThisVal (configuredContexts m)) (configuredInputs (prepare xs m))
             (interceptedExits (cache c) (run_hash c) (configuredExits (prepare xs m)))
             (configuredContexts m)) \<and>
   events (plain_exec xs m) =
     [RunFn (fn m) ThisMachine (configuredInputs m)
        (\<lambda>name. map_option Original
           (configuredExits (case xs of Some x \<Rightarrow> setExits x m | None \<Rightarrow> m) name))
        (dependencies m)]"
proof -
  have "events (plain_exec xs m) =
     [RunFn (fn m) ThisMachine (configuredInputs m)
        (\<lambda>name. map_option Original
           (configuredExits (case xs of Some x \<Rightarrow> setExits x m | None \<Rightarrow> m) name))
        (dependencies m)]"
    by (cases xs) (simp_all add: plain_exec_def setExits_def Let_def)
  with every_call[of acts xs now m c ev] show ?thesis by blast
qed

theorem fn_called_with_contexts_witness:
  "run [] (exec None 5000 plain_machine) = Some (exec None 5000 plain_machine) \<and>
   events (exec None 5000 plain_machine) =
     [RunFn (fn plain_machine) (ThisVal (configuredContexts plain_machine))
        (configuredInputs (prepare None plain_machine))
        (interceptedExits (cache (exec None 5000 plain_machine))
           (run_hash (exec None 5000 plain_machine)) (configuredExits (prepare None plain_machine)))
        (configuredContexts plain_machine)]"
proof -
  have r: "run [] (exec None 5000 plain_machine) = Some (exec None 5000 plain_machine)" by simp
  have e: "events (exec None 5000 plain_machine) = [the_call (exec None 5000 plain_machine)]"
    by (simp add: run_defs plain_machine_def custom_machine_def the_call_def)
  have m: "the_call (exec None 5000 plain_machine) \<in> set (events (exec None 5000 plain_machine))"
    by (simp add: e)
  have f: "is_RunFn (the_call (exec None 5000 plain_machine))" by simp
  from fn_called_with_contexts[of "[]" None 5000 plain_machine "exec None 5000 plain_machine"
      "the_call (exec None 5000 plain_machine)"] r m f
  have "the_call (exec None 5000 plain_machine) =
     RunFn (fn plain_machine) (ThisVal (configuredContexts plain_machine))
        (configuredInputs (prepare None plain_machine))
        (interceptedExits (cache (exec None 5000 plain_machine))
           (run_hash (exec None 5000 plain_machine)) (configuredExits (prepare None plain_machine)))
        (configuredContexts plain_machine)" by blast
  with e r show ?thesis by simp
qed

text \<open>
  C6. The garbage collector is to be launched only after a miss that had a valid hash. When
  the hash derivation fails, the run warns and still issues the count, with an undefined
  hash in its criteria; when the store answers with a number above the buffer, the destroy
  follows, again with an undefined hash.
\<close>

theorem gc_launched_without_hash:
  "\<exists>c. run [Respond 0 (RHash (JStr ''cannot hash'') None), Respond 0 (RCount JNull (Some 5))]
         (exec None 5000 demo_machine) = Some c \<and>
       run_hash c = None \<and>
       events c =
         [CalculateHash,
          Warn (JStr ''cannot hash''),
          Issue 3 (Count \<lparr> where_createdAt = (LessOrEqual, 4000), where_hash = None,
                            sort_by = None, limit = None, skip = None \<rparr>),
          the_call c,
          Issue 3 (Destroy \<lparr> where_createdAt = (LessOrEqual, 4000), where_hash = None,
                              sort_by = Some CreatedAtDesc, limit = None, skip = Some 1 \<rparr>)]"
proof -
  have t: "truthy (JStr ''cannot hash'')" by simp
  note s1 = hash_failed[OF demo_cache t, of None]
  show ?thesis
    apply (simp only: run.simps s1 option.case)
    apply (simp add: count_cb_def the_call_def gc_criteria_def destroy_criteria_def demo_cfg_def)
    done
qed

text \<open>
  C9. The claim has the reserved input removed in every run in which the caller supplies
  it. With \<open>_cache: false\<close> (here on a machine without cache settings) the guard of line 45
  does not fire: the key stays in the configured inputs and the unit's function receives it.
\<close>

theorem cache_input_counterexample:
  "configuredInputs (falsy_machine\<lparr>cacheSettings := None\<rparr>) ''_cache'' = Some (JBool False) \<and>
   map (seen_input ''_cache'') (events (exec None 5000 (falsy_machine\<lparr>cacheSettings := None\<rparr>)))
     = [Some (JBool False)] \<and>
   map is_RunFn (events (exec None 5000 (falsy_machine\<lparr>cacheSettings := None\<rparr>))) = [True]"
  by (simp add: run_defs falsy_machine_def demo_machine_def)

text \<open>
  C9, as amended. When the value under \<open>_cache\<close> is truthy, \<open>_.extend\<close> merges it into the
  machine's cache settings (property by property when both are settings objects), the key
  is removed from the configured inputs, and in every run every call of the unit's
  function sees no \<open>_cache\<close> input and every other input unchanged. When the value is
  falsy, the cache settings are left as they are and the function receives all inputs
  unchanged, the reserved one included.
\<close>

theorem cache_input_consumed:
  assumes "configuredInputs m ''_cache'' = Some v"
  shows "(truthy v \<longrightarrow>
            cacheSettings (prepare xs m) = extend (cacheSettings m) v \<and>
            configuredInputs (prepare xs m) = (configuredInputs m)(''_cache'' := None) \<and>
            (\<forall>acts c ev. run acts (exec xs now m) = Some c \<and> ev \<in> set (events c) \<and> is_RunFn ev \<longrightarrow>
               seen_input ''_cache'' ev = None \<and>
               (\<forall>name. name \<noteq> ''_cache'' \<longrightarrow> seen_input name ev = configuredInputs m name))) \<and>
         (\<not> truthy v \<longrightarrow>
            cacheSettings (prepare xs m) = cacheSettings m \<and>
            (\<forall>acts c ev. run acts (exec xs now m) = Some c \<and> ev \<in> set (events c) \<and> is_RunFn ev \<longrightarrow>
               (\<forall>name. seen_input name ev = configuredInputs m name))) \<and>
         (\<forall>d s. cacheSettings m = Some d \<and> v = JSettings s \<longrightarrow>
            extend (cacheSettings m) v =
              Some \<lparr> model = override (model d) (model s),
                     ttl = override (ttl d) (ttl s),
                     maxOldEntriesBuffer = override (maxOldEntriesBuffer d) (maxOldEntriesBuffer s),
                     exit = override (exit d) (exit s),
                     expirationDate = override (expirationDate d) (expirationDate s) \<rparr>)"
proof -
  let ?m1 = "case xs of Some x \<Rightarrow> setExits x m | None \<Rightarrow> m"
  have m1: "configuredInputs ?m1 = configuredInputs m" "cacheSettings ?m1 = cacheSettings m"
    by (auto simp: setExits_def split: option.splits)
  have seen: "seen_input name ev = configuredInputs (prepare xs m) name"
    if "run acts (exec xs now m) = Some c" "ev \<in> set (events c)" "is_RunFn ev" for acts c ev name
    using every_call[OF that] by simp
  have t: "cacheSettings (prepare xs m) = extend (cacheSettings m) v \<and>
      configuredInputs (prepare xs m) = (configuredInputs m)(''_cache'' := None)" if "truthy v"
    using that assms m1 by (simp add: prepare_def consume_cache_input_def)
  have f: "cacheSettings (prepare xs m) = cacheSettings m \<and>
      configuredInputs (prepare xs m) = configuredInputs m" if "\<not> truthy v"
    using that assms m1 by (simp add: prepare_def consume_cache_input_def)
  have e: "extend (cacheSettings m) v =
              Some \<lparr> model = override (model d) (model s),
                     ttl = override (ttl d) (ttl s),
                     maxOldEntriesBuffer = override (maxOldEntriesBuffer d) (maxOldEntriesBuffer s),
                     exit = override (exit d) (exit s),
                     expirationDate = override (expirationDate d) (expirationDate s) \<rparr>"
    if "cacheSettings m = Some d \<and> v = JSettings s" for d s
    using that by (simp add: extend_def)
  from t f e seen show ?thesis by (auto simp del: fun_upd_apply) (simp_all)
qed

theorem cache_input_consumed_witness:
  "configuredInputs override_machine ''_cache'' = Some (JSettings override_settings) \<and>
   truthy (JSettings override_settings) \<and>
   cacheSettings override_machine = Some demo_settings \<and>
   cacheSettings (prepare None override_machine) =
     extend (cacheSettings override_machine) (JSettings override_settings) \<and>
   extend (cacheSettings override_machine) (JSettings override_settings) =
     Some \<lparr> model = override (model demo_settings) (model override_settings),
            ttl = override (ttl demo_settings) (ttl override_settings),
            maxOldEntriesBuffer =
              override (maxOldEntriesBuffer demo_settings) (maxOldEntriesBuffer override_settings),
            exit = override (exit demo_settings) (exit override_settings),
            expirationDate =
              override (expirationDate demo_settings) (expirationDate override_settings) \<rparr> \<and>
   override (ttl demo_settings) (ttl override_settings) = Some 50 \<and>
   (\<exists>c ev. run [Respond 0 (RHash JNull (Some ''h'')), Respond 0 (RFind JNull [])]
             (exec None 5000 override_machine) = Some c \<and>
           ev \<in> set (events c) \<and> is_RunFn ev \<and> seen_input ''_cache'' ev = None \<and>
           seen_input ''a'' ev = configuredInputs override_machine ''a'') \<and>
   configuredInputs falsy_machine ''_cache'' = Some (JBool False) \<and> \<not> truthy (JBool False) \<and>
   cacheSettings (prepare None falsy_machine) = cacheSettings falsy_machine \<and>
   (\<exists>c ev. run [Respond 0 (RHash JNull (Some ''h'')), Respond 0 (RFind JNull [])]
             (exec None 5000 falsy_machine) = Some c \<and>
           ev \<in> set (events c) \<and> is_RunFn ev \<and>
           seen_input ''_cache'' ev = configuredInputs falsy_machine ''_cache'')"
proof -
  have h1: "truthy (JSettings override_settings)" by simp
  have h2: "cacheSettings override_machine = Some demo_settings"
    by (simp add: override_machine_def demo_machine_def)
  have h3: "override (ttl demo_settings) (ttl override_settings) = Some 50"
    by (simp add: override_def override_settings_def)
  have h4: "configuredInputs falsy_machine ''_cache'' = Some (JBool False)"
    by (simp add: falsy_machine_def)
  have h5: "\<not> truthy (JBool False)" by simp
  have h6: "''a'' \<noteq> ''_cache''" by simp
  from missed_call[OF override_cache] obtain c where
    c: "run [Respond 0 (RHash JNull (Some ''h'')), Respond 0 (RFind JNull [])]
          (exec None 5000 override_machine) = Some c" "the_call c \<in> set (events c)" by blast
  from missed_call[OF falsy_cache] obtain c' where
    c': "run [Respond 0 (RHash JNull (Some ''h'')), Respond 0 (RFind JNull [])]
          (exec None 5000 falsy_machine) = Some c'" "the_call c' \<in> set (events c')" by blast
  have r: "is_RunFn (the_call c)" "is_RunFn (the_call c')" by simp_all
  note t1 = cache_input_consumed[OF override_input, of None 5000]
  note t2 = cache_input_consumed[OF h4, of None 5000]
  from t1 h1 h2 c r(1) h6 have a:
    "cacheSettings (prepare None override_machine) =
       extend (cacheSettings override_machine) (JSettings override_settings)"
    "extend (cacheSettings override_machine) (JSettings override_settings) =
     Some \<lparr> model = override (model demo_settings) (model override_settings),
            ttl = override (ttl demo_settings) (ttl override_settings),
            maxOldEntriesBuffer =
              override (maxOldEntriesBuffer demo_settings) (maxOldEntriesBuffer override_settings),
            exit = override (exit demo_settings) (exit override_settings),
            expirationDate =
              override (expirationDate demo_settings) (expirationDate override_settings) \<rparr>"
    "seen_input ''_cache'' (the_call c) = None"
    "seen_input ''a'' (the_call c) = configuredInputs override_machine ''a''"
    by blast+
  from t2 h5 c' r(2) have b:
    "cacheSettings (prepare None falsy_machine) = cacheSettings falsy_machine"
    "seen_input ''_cache'' (the_call c') = configuredInputs falsy_machine ''_cache''"
    by blast+
  from a b c c' r h1 h2 h3 h4 h5 override_input show ?thesis by blast
qed

end
